theory Spec2Isabelle
  imports Main "HOL-Library.Word"
begin

unbundle bit_operations_syntax

section \<open>The physical page allocator with reference counts (kernel/kalloc.c)\<close>

subsection \<open>Machine data\<close>

text \<open>
  Addresses and \<^verbatim>\<open>uint64\<close> values are 64-bit words, a byte of memory is an 8-bit word,
  and a C \<^verbatim>\<open>int\<close> is a 32-bit word read in two's complement by \<^term>\<open>sint\<close>.
  Physical memory is a function from addresses to bytes. The null pointer is the address 0.
\<close>

type_synonym addr = "64 word"
type_synonym byte = "8 word"
type_synonym memory = "addr \<Rightarrow> byte"
type_synonym cint = "32 word"

text \<open>
  Modelled from the spec: the macro \<^verbatim>\<open>PGSIZE\<close> (riscv.h) is not among the sources. The
  example of the spec has pages of 4096 bytes, and the comments of kalloc.c say that the
  allocator hands out whole 4096-byte pages.
\<close>

definition PGSIZE :: addr where
  "PGSIZE = 4096"

text \<open>
  \<^verbatim>\<open>PHYSTOP\<close> (memlayout.h) and \<^verbatim>\<open>end\<close> (the linker script) are not among the sources:
  they are parameters of the model.
\<close>

record layout =
  PHYSTOP :: addr
  kend :: addr

text \<open>
  Modelled from the spec: the macro \<^verbatim>\<open>PGROUNDUP\<close> (riscv.h) is not among the sources. The
  spec says that the start of the range is rounded up to the next page boundary; on
  \<^verbatim>\<open>uint64\<close> this is the usual mask, which wraps around with the addition.
\<close>

definition PGROUNDUP :: "addr \<Rightarrow> addr" where
  "PGROUNDUP sz = (sz + PGSIZE - 1) AND NOT (PGSIZE - 1)"

text \<open>
  Modelled from the spec: \<^verbatim>\<open>memset\<close> (string.c) is not among the sources; the spec calls
  it the bulk memory-fill primitive. \<^verbatim>\<open>memset(dst, c, n)\<close> writes the byte \<open>c\<close> to the \<open>n\<close>
  addresses from \<open>dst\<close> on.
\<close>

definition memset :: "addr \<Rightarrow> byte \<Rightarrow> addr \<Rightarrow> memory \<Rightarrow> memory" where
  "memset dst c n m = (\<lambda>a. if a - dst < n then c else m a)"

text \<open>
  A pointer is stored in eight bytes, the least significant byte first (RISC-V is
  little-endian): \<^verbatim>\<open>r->next\<close> is the 64-bit value at the address \<open>r\<close>.
\<close>

definition store64 :: "addr \<Rightarrow> addr \<Rightarrow> memory \<Rightarrow> memory" where
  "store64 p v m = (\<lambda>a. if a - p < 8 then ucast (drop_bit (8 * unat (a - p)) v) else m a)"

definition load64 :: "memory \<Rightarrow> addr \<Rightarrow> addr" where
  "load64 m p =
     ucast (m p) OR push_bit 8 (ucast (m (p + 1))) OR push_bit 16 (ucast (m (p + 2)))
     OR push_bit 24 (ucast (m (p + 3))) OR push_bit 32 (ucast (m (p + 4)))
     OR push_bit 40 (ucast (m (p + 5))) OR push_bit 48 (ucast (m (p + 6)))
     OR push_bit 56 (ucast (m (p + 7)))"

subsection \<open>The state\<close>

text \<open>
  The two spinlocks carry no data that the allocator reads. What the code does with them
  is kept in a log: each call of \<^verbatim>\<open>acquire\<close> and \<^verbatim>\<open>release\<close>, and each access to
  \<^verbatim>\<open>kmem.freelist\<close> and to \<^verbatim>\<open>refcnt.count\<close>, in program order.
\<close>

datatype lock = Kmem_lock | Refcnt_lock

datatype event = Acquire lock | Release lock | Use_freelist | Use_count

text \<open>
  \<open>count\<close> is the array \<^verbatim>\<open>refcnt.count\<close>, indexed by the page number. The array of the
  source has \<^verbatim>\<open>PHYSTOP / PGSIZE\<close> entries and C defines no access beyond them; the model
  is a function on all indices, and the pages that \<^verbatim>\<open>kfree\<close>, \<^verbatim>\<open>increfcnt\<close> and
  \<^verbatim>\<open>decrefcnt\<close> accept are below \<^verbatim>\<open>PHYSTOP\<close>.
\<close>

record kstate =
  mem :: memory
  freelist :: addr
  count :: "addr \<Rightarrow> cint"
  events :: "event list"

text \<open>
  A call returns a value, or it panics. \<^verbatim>\<open>panic\<close> (printf.c) is not among the sources;
  the spec calls it the fatal-abort primitive, and it never returns. The state of the
  second case is the state in which the kernel stopped.
\<close>

datatype 'a outcome = Return 'a kstate | Panic string kstate

definition log_event :: "event \<Rightarrow> kstate \<Rightarrow> kstate" where
  "log_event e s = s\<lparr>events := events s @ [e]\<rparr>"

text \<open>
  Modelled from the spec: \<^verbatim>\<open>acquire\<close> and \<^verbatim>\<open>release\<close> (spinlock.c) are not among the
  sources. The spec calls them the lock and unlock of a mutex; in a sequential model
  they only leave their trace in the log.
\<close>

definition acquire :: "lock \<Rightarrow> kstate \<Rightarrow> kstate" where
  "acquire l s = log_event (Acquire l) s"

definition release :: "lock \<Rightarrow> kstate \<Rightarrow> kstate" where
  "release l s = log_event (Release l) s"

subsection \<open>The reference count table\<close>

definition getrefcnt :: "addr \<Rightarrow> kstate \<Rightarrow> cint outcome" where
  "getrefcnt pa s = Return (count s (pa div PGSIZE)) (log_event Use_count s)"

definition increfcnt :: "layout \<Rightarrow> addr \<Rightarrow> kstate \<Rightarrow> unit outcome" where
  "increfcnt L pa s =
     (if pa mod PGSIZE \<noteq> 0 \<or> PHYSTOP L \<le> pa then Panic ''increfcnt'' s
      else
        let s1 = acquire Refcnt_lock s;
            s2 = log_event Use_count
                   (s1\<lparr>count := (count s1)(pa div PGSIZE := count s1 (pa div PGSIZE) + 1)\<rparr>)
        in Return () (release Refcnt_lock s2))"

definition decrefcnt :: "layout \<Rightarrow> addr \<Rightarrow> kstate \<Rightarrow> cint outcome" where
  "decrefcnt L pa s =
     (if pa mod PGSIZE \<noteq> 0 \<or> PHYSTOP L \<le> pa then Panic ''decrefcnt'' s
      else
        let s1 = acquire Refcnt_lock s;
            cnt = count s1 (pa div PGSIZE) - 1;
            s2 = log_event Use_count (s1\<lparr>count := (count s1)(pa div PGSIZE := cnt)\<rparr>)
        in Return cnt (release Refcnt_lock s2))"

subsection \<open>The free list\<close>

definition kfree :: "layout \<Rightarrow> addr \<Rightarrow> kstate \<Rightarrow> unit outcome" where
  "kfree L pa s =
     (if pa mod PGSIZE \<noteq> 0 \<or> pa < kend L \<or> PHYSTOP L \<le> pa then Panic ''kfree'' s
      else
        case decrefcnt L pa s of
          Panic msg s' \<Rightarrow> Panic msg s'
        | Return cnt s1 \<Rightarrow>
            if 0 < sint cnt then Return () s1
            else
              let s2 = s1\<lparr>mem := memset pa 1 PGSIZE (mem s1)\<rparr>;
                  s3 = acquire Kmem_lock s2;
                  s4 = log_event Use_freelist (s3\<lparr>mem := store64 pa (freelist s3) (mem s3)\<rparr>);
                  s5 = s4\<lparr>freelist := pa\<rparr>
              in Return () (release Kmem_lock s5))"

definition kalloc :: "kstate \<Rightarrow> addr outcome" where
  "kalloc s =
     (let s1 = acquire Kmem_lock s;
          r = freelist s1;
          s2 = log_event Use_freelist
                 (if r \<noteq> 0 then s1\<lparr>freelist := load64 (mem s1) r\<rparr> else s1);
          s3 = release Kmem_lock s2
      in if r \<noteq> 0
         then Return r (log_event Use_count
                (s3\<lparr>mem := memset r 5 PGSIZE (mem s3),
                    count := (count s3)(r div PGSIZE := 1)\<rparr>))
         else Return r s3)"

subsection \<open>Seeding\<close>

text \<open>
  The loop of \<^verbatim>\<open>freerange\<close> compares and advances 64-bit pointers, which wrap around. It
  ends when a page no longer fits below \<open>pa_end\<close> or when \<^verbatim>\<open>kfree\<close> panics; nothing else
  bounds it, so it is a partial function and \<open>None\<close> stands for a loop that never ends.
\<close>

partial_function (option) freerange_loop ::
  "layout \<Rightarrow> addr \<Rightarrow> addr \<Rightarrow> kstate \<Rightarrow> unit outcome option" where
  "freerange_loop L p pa_end s =
     (if p + PGSIZE \<le> pa_end
      then (case kfree L p s of
              Panic msg s' \<Rightarrow> Some (Panic msg s')
            | Return u s' \<Rightarrow> freerange_loop L (p + PGSIZE) pa_end s')
      else Some (Return () s))"

definition freerange :: "layout \<Rightarrow> addr \<Rightarrow> addr \<Rightarrow> kstate \<Rightarrow> unit outcome option" where
  "freerange L pa_start pa_end s = freerange_loop L (PGROUNDUP pa_start) pa_end s"

text \<open>
  \<^verbatim>\<open>kinit\<close> initialises the two locks, which leaves the model's state as it is, and seeds
  the free list with the memory between \<^verbatim>\<open>end\<close> and \<^verbatim>\<open>PHYSTOP\<close>.
\<close>

definition kinit :: "layout \<Rightarrow> kstate \<Rightarrow> unit outcome option" where
  "kinit L s = freerange L (kend L) (PHYSTOP L) s"

section \<open>Notions used in the properties\<close>

subsection \<open>The free list as a sequence of pages\<close>

text \<open>
  The free list is the chain of \<^verbatim>\<open>next\<close> pointers that starts at \<^verbatim>\<open>kmem.freelist\<close>.
  \<open>freechain m h xs\<close> says that following the pointers of the memory \<open>m\<close> from \<open>h\<close>
  visits exactly the addresses \<open>xs\<close> and then reaches the null pointer.
\<close>

primrec freechain :: "memory \<Rightarrow> addr \<Rightarrow> addr list \<Rightarrow> bool" where
  "freechain m h [] = (h = 0)"
| "freechain m h (x # xs) = (h \<noteq> 0 \<and> h = x \<and> freechain m (load64 m x) xs)"

text \<open>
  \<open>walk n m h\<close> follows the pointers for at most \<open>n\<close> steps and lists the addresses it
  visits; it is defined on every memory, also where the chain runs in a circle.
\<close>

fun walk :: "nat \<Rightarrow> memory \<Rightarrow> addr \<Rightarrow> addr list" where
  "walk 0 m h = []"
| "walk (Suc n) m h = (if h = 0 then [] else h # walk n m (load64 m h))"

text \<open>The addresses that \<^verbatim>\<open>kfree\<close> accepts.\<close>

definition page_ok :: "layout \<Rightarrow> addr \<Rightarrow> bool" where
  "page_ok L pa = (pa mod PGSIZE = 0 \<and> kend L \<le> pa \<and> pa < PHYSTOP L)"

text \<open>
  The free list of the state \<open>s\<close> is the finite chain \<open>xs\<close> of pages that \<^verbatim>\<open>kfree\<close>
  accepts, and the reference count of each of them is at most 0.
\<close>

definition free_inv :: "layout \<Rightarrow> kstate \<Rightarrow> addr list \<Rightarrow> bool" where
  "free_inv L s xs =
     (freechain (mem s) (freelist s) xs \<and>
      list_all (\<lambda>p. page_ok L p \<and> sint (count s (p div PGSIZE)) \<le> 0) xs)"

definition on_freelist :: "kstate \<Rightarrow> addr \<Rightarrow> bool" where
  "on_freelist s pa = (\<exists>xs. freechain (mem s) (freelist s) xs \<and> pa \<in> set xs)"

subsection \<open>Sequences of calls\<close>

text \<open>\<^verbatim>\<open>kfree\<close> called on each page of a list in turn; a panic ends the sequence.\<close>

fun kfree_list :: "layout \<Rightarrow> addr list \<Rightarrow> kstate \<Rightarrow> unit outcome" where
  "kfree_list L [] s = Return () s"
| "kfree_list L (p # ps) s =
     (case kfree L p s of
        Panic msg s' \<Rightarrow> Panic msg s'
      | Return u s' \<Rightarrow> kfree_list L ps s')"

text \<open>\<open>n\<close> calls of \<^verbatim>\<open>kalloc\<close> in a row, with the addresses they return.\<close>

fun kalloc_times :: "nat \<Rightarrow> kstate \<Rightarrow> addr list \<times> kstate" where
  "kalloc_times 0 s = ([], s)"
| "kalloc_times (Suc n) s =
     (case kalloc s of
        Panic msg s' \<Rightarrow> ([], s')
      | Return r s' \<Rightarrow> (case kalloc_times n s' of (rs, s'') \<Rightarrow> (r # rs, s'')))"

text \<open>
  The pages of a range in the words of the spec: the start is rounded up to the next
  page boundary, and every page from there on that fits entirely below the end of the
  range is listed, in ascending order. The arithmetic is on natural numbers.
\<close>

definition round_up :: "nat \<Rightarrow> nat" where
  "round_up n = ((n + 4095) div 4096) * 4096"

definition seed_pages :: "addr \<Rightarrow> addr \<Rightarrow> addr list" where
  "seed_pages pa_start pa_end =
     map (\<lambda>i. of_nat (round_up (unat pa_start) + 4096 * i))
       [0 ..< (unat pa_end - round_up (unat pa_start)) div 4096]"

text \<open>
  A layout in which the kernel image does not end at address 0 and the pointer
  arithmetic of \<^verbatim>\<open>kinit\<close> stays below \<open>2 ^ 64\<close>.
\<close>

definition layout_ok :: "layout \<Rightarrow> bool" where
  "layout_ok L =
     (0 < unat (kend L) \<and> unat (kend L) + 8192 \<le> 2 ^ 64 \<and> unat (PHYSTOP L) + 4096 < 2 ^ 64)"

text \<open>
  The state at boot: the globals \<^verbatim>\<open>kmem\<close> and \<^verbatim>\<open>refcnt\<close> are zero-initialised, the
  content of the memory is arbitrary.
\<close>

definition boot_state :: "kstate \<Rightarrow> bool" where
  "boot_state s = (freelist s = 0 \<and> count s = (\<lambda>i. 0))"

text \<open>
  The states that the allocator reaches when its callers release and share only pages
  that are not on the free list. \<^verbatim>\<open>decrefcnt\<close> may be called on any page; for a page on
  the free list the decrement must be one that C defines, so the count is not the least
  \<^verbatim>\<open>int\<close>.
\<close>

inductive reachable :: "layout \<Rightarrow> kstate \<Rightarrow> bool" for L :: layout where
  after_kinit: "boot_state s0 \<Longrightarrow> kinit L s0 = Some (Return () s) \<Longrightarrow> reachable L s"
| after_kalloc: "reachable L s \<Longrightarrow> kalloc s = Return r s' \<Longrightarrow> reachable L s'"
| after_kfree:
    "reachable L s \<Longrightarrow> \<not> on_freelist s pa \<Longrightarrow> kfree L pa s = Return () s' \<Longrightarrow> reachable L s'"
| after_increfcnt:
    "reachable L s \<Longrightarrow> \<not> on_freelist s pa \<Longrightarrow> increfcnt L pa s = Return () s' \<Longrightarrow>
     reachable L s'"
| after_decrefcnt:
    "reachable L s \<Longrightarrow>
     (on_freelist s pa \<longrightarrow> - 2147483648 < sint (count s (pa div PGSIZE))) \<Longrightarrow>
     decrefcnt L pa s = Return c s' \<Longrightarrow> reachable L s'"
| after_getrefcnt: "reachable L s \<Longrightarrow> getrefcnt pa s = Return c s' \<Longrightarrow> reachable L s'"

text \<open>
  What a run of the loop of \<^verbatim>\<open>freerange\<close> that starts at an aligned address \<open>p\<close> and
  ends with the outcome \<open>y\<close> keeps: if the last page of the address space lies below
  \<^verbatim>\<open>PHYSTOP\<close>, the loop does not return normally, and if it returns normally from a state
  whose free list holds only pages below \<open>p\<close>, the final state has a free list again.
\<close>

definition seeding_keeps :: "layout \<Rightarrow> addr \<Rightarrow> addr \<Rightarrow> kstate \<Rightarrow> unit outcome \<Rightarrow> bool" where
  "seeding_keeps L p e s y =
     (e = PHYSTOP L \<and> p mod PGSIZE = 0 \<longrightarrow>
        (- PGSIZE < PHYSTOP L \<longrightarrow> (\<forall>s'. y \<noteq> Return () s')) \<and>
        (\<forall>xs s'. free_inv L s xs \<and> (\<forall>x\<in>set xs. x < p) \<and> y = Return () s' \<longrightarrow>
           (\<exists>ys. free_inv L s' ys)))"

text \<open>The state in which a call ended.\<close>

definition outcome_state :: "'a outcome \<Rightarrow> kstate" where
  "outcome_state r = (case r of Return v s \<Rightarrow> s | Panic msg s \<Rightarrow> s)"

subsection \<open>The example of the spec\<close>

text \<open>Three pages from \<open>0x1000\<close> on; memory, table and log start out empty.\<close>

definition L3 :: layout where
  "L3 = \<lparr>PHYSTOP = 0x4000, kend = 0x1000\<rparr>"

definition zero_state :: kstate where
  "zero_state = \<lparr>mem = (\<lambda>a. 0), freelist = 0, count = (\<lambda>i. 0), events = []\<rparr>"

text \<open>The three pages, released in ascending order from the empty state.\<close>

definition seeded3 :: kstate where
  "seeded3 = outcome_state (kfree_list L3 [0x1000, 0x2000, 0x3000] zero_state)"

text \<open>
  Two states of the example: the page \<open>0x3000\<close> has been allocated, and it has then
  been shared once.
\<close>

definition alloc3 :: kstate where
  "alloc3 = outcome_state (kalloc seeded3)"

definition shared3 :: kstate where
  "shared3 = outcome_state (increfcnt L3 0x3000 alloc3)"

text \<open>A marker byte written into the allocated page \<open>0x3000\<close>.\<close>

definition marked3 :: kstate where
  "marked3 = alloc3\<lparr>mem := (mem alloc3)(0x3010 := 0xAB)\<rparr>"

text \<open>The count of the head of the seeded free list, decremented by its caller.\<close>

definition dec3 :: kstate where
  "dec3 = outcome_state (decrefcnt L3 0x3000 seeded3)"

text \<open>The head of the seeded free list, released once more.\<close>

definition dbl3 :: kstate where
  "dbl3 = outcome_state (kfree L3 0x3000 seeded3)"

subsection \<open>Locks\<close>

text \<open>
  \<open>both_held k r es\<close>: at some moment of the log \<open>es\<close> both locks are held, where \<open>k\<close>
  and \<open>r\<close> say whether the free-list lock and the table lock are held at its start.
\<close>

fun both_held :: "bool \<Rightarrow> bool \<Rightarrow> event list \<Rightarrow> bool" where
  "both_held k r [] = (k \<and> r)"
| "both_held k r (Acquire Kmem_lock # es) = ((k \<and> r) \<or> both_held True r es)"
| "both_held k r (Acquire Refcnt_lock # es) = ((k \<and> r) \<or> both_held k True es)"
| "both_held k r (Release Kmem_lock # es) = ((k \<and> r) \<or> both_held False r es)"
| "both_held k r (Release Refcnt_lock # es) = ((k \<and> r) \<or> both_held k False es)"
| "both_held k r (Use_freelist # es) = ((k \<and> r) \<or> both_held k r es)"
| "both_held k r (Use_count # es) = ((k \<and> r) \<or> both_held k r es)"

text \<open>
  \<open>unlocked_count r es\<close>: the log \<open>es\<close> has an access to \<^verbatim>\<open>refcnt.count\<close> at a moment
  when the table lock is not held.
\<close>

fun unlocked_count :: "bool \<Rightarrow> event list \<Rightarrow> bool" where
  "unlocked_count r [] = False"
| "unlocked_count r (Acquire Refcnt_lock # es) = unlocked_count True es"
| "unlocked_count r (Release Refcnt_lock # es) = unlocked_count False es"
| "unlocked_count r (Use_count # es) = (\<not> r \<or> unlocked_count r es)"
| "unlocked_count r (e # es) = unlocked_count r es"

section \<open>Auxiliary lemmas\<close>

subsection \<open>Bytes, words and pages\<close>

lemma byte_bit:
  fixes v :: addr
  assumes "n < 64"
  shows "bit (push_bit k (ucast (ucast (drop_bit k v) :: byte)) :: addr) n = (k \<le> n \<and> n < k + 8 \<and> bit v n)"
  using assms by (auto simp: bit_simps)

lemma byte_bit0:
  fixes v :: addr
  assumes "n < 64"
  shows "bit (ucast (ucast v :: byte) :: addr) n = (n < 8 \<and> bit v n)"
  using assms by (auto simp: bit_simps)

lemma bytes_join:
  "ucast (ucast v :: byte) OR push_bit 8 (ucast (ucast (drop_bit 8 v) :: byte))
   OR push_bit 16 (ucast (ucast (drop_bit 16 v) :: byte))
   OR push_bit 24 (ucast (ucast (drop_bit 24 v) :: byte))
   OR push_bit 32 (ucast (ucast (drop_bit 32 v) :: byte))
   OR push_bit 40 (ucast (ucast (drop_bit 40 v) :: byte))
   OR push_bit 48 (ucast (ucast (drop_bit 48 v) :: byte))
   OR push_bit 56 (ucast (ucast (drop_bit 56 v) :: byte)) = v" for v :: addr
proof (rule bit_word_eqI)
  fix n assume "n < LENGTH(64)"
  then have n: "n < 64" by simp
  consider "n < 8" | "8 \<le> n \<and> n < 16" | "16 \<le> n \<and> n < 24" | "24 \<le> n \<and> n < 32"
    | "32 \<le> n \<and> n < 40" | "40 \<le> n \<and> n < 48" | "48 \<le> n \<and> n < 56" | "56 \<le> n \<and> n < 64"
    using n by linarith
  then show "bit (ucast (ucast v :: byte) OR push_bit 8 (ucast (ucast (drop_bit 8 v) :: byte))
   OR push_bit 16 (ucast (ucast (drop_bit 16 v) :: byte))
   OR push_bit 24 (ucast (ucast (drop_bit 24 v) :: byte))
   OR push_bit 32 (ucast (ucast (drop_bit 32 v) :: byte))
   OR push_bit 40 (ucast (ucast (drop_bit 40 v) :: byte))
   OR push_bit 48 (ucast (ucast (drop_bit 48 v) :: byte))
   OR push_bit 56 (ucast (ucast (drop_bit 56 v) :: byte)) :: addr) n = bit v n"
    by cases (simp_all only: bit_or_iff byte_bit [OF n] byte_bit0 [OF n], simp_all)
qed

lemma load64_store64: "load64 (store64 p v m) p = v"
  by (simp add: load64_def store64_def bytes_join)

lemma load64_agree:
  assumes "\<And>a. a - p < 8 \<Longrightarrow> m' a = m a"
  shows "load64 m' p = load64 m p"
proof -
  have "m' p = m p" "m' (p + 1) = m (p + 1)" "m' (p + 2) = m (p + 2)" "m' (p + 3) = m (p + 3)"
    "m' (p + 4) = m (p + 4)" "m' (p + 5) = m (p + 5)" "m' (p + 6) = m (p + 6)"
    "m' (p + 7) = m (p + 7)"
    by (simp_all add: assms)
  then show ?thesis by (simp add: load64_def)
qed

lemma nat_page: 
  fixes P A :: nat
  assumes al: "P mod 4096 = 0" and pb: "P < 18446744073709551616" and ab: "A < 18446744073709551616"
  shows "((if P \<le> A then A - P else A + 18446744073709551616 - P) < 4096) = (A div 4096 = P div 4096)"
proof -
  define k where "k = P div 4096"
  define q where "q = A div 4096"
  define r where "r = A mod 4096"
  have P: "P = 4096 * k" using al unfolding k_def by (metis add.right_neutral mult_div_mod_eq)
  have A: "A = 4096 * q + r" unfolding q_def r_def by simp
  have r: "r < 4096" unfolding r_def by simp
  have "k < 4503599627370496" using pb unfolding P by linarith
  then have kb: "4096 * k + 4096 \<le> 18446744073709551616" by linarith
  consider "q < k" | "q = k" | "k < q" by linarith
  then have "((if P \<le> A then A - P else A + 18446744073709551616 - P) < 4096) = (q = k)"
  proof cases
    case 1
    then have "4096 * q + 4096 \<le> 4096 * k" by linarith
    with 1 r kb show ?thesis unfolding P A by simp
  next
    case 2
    with r show ?thesis unfolding P A by simp
  next
    case 3
    then have "4096 * k + 4096 \<le> 4096 * q" by linarith
    with 3 r show ?thesis unfolding P A by simp
  qed
  then show ?thesis unfolding k_def q_def .
qed

lemma in_page_iff:
  fixes a p :: addr
  assumes al: "p mod PGSIZE = 0"
  shows "(a - p < PGSIZE) = (a div PGSIZE = p div PGSIZE)"
proof -
  have "unat (p mod 4096) = 0" using al by (simp add: PGSIZE_def)
  then have pm: "unat p mod 4096 = 0"
    by (simp add: unat_mod)
  have pb: "unat p < 18446744073709551616" using unsigned_less [of p] by simp
  have ab: "unat a < 18446744073709551616" using unsigned_less [of a] by simp
  have d: "(a div 4096 = p div 4096) = (unat a div 4096 = unat p div 4096)"
    by (simp add: word_unat_eq_iff unat_div)
  have s: "(a - p < 4096) = (unat (a - p) < 4096)"
    by (simp add: word_less_nat_alt)
  have u: "unat (a - p) = (if unat p \<le> unat a then unat a - unat p else unat a + 18446744073709551616 - unat p)"
    by (simp add: unat_sub_if')
  show ?thesis
    unfolding PGSIZE_def d s u using nat_page [OF pm pb ab] .
qed

lemma aligned_inj:
  fixes p q :: addr
  assumes "p mod PGSIZE = 0" "q mod PGSIZE = 0" "p div PGSIZE = q div PGSIZE"
  shows "p = q" 
proof -
  have "p = p div PGSIZE * PGSIZE + p mod PGSIZE" by (simp only: div_mult_mod_eq)
  also have "\<dots> = q div PGSIZE * PGSIZE + q mod PGSIZE" by (simp only: assms)
  also have "\<dots> = q" by (simp only: div_mult_mod_eq)
  finally show ?thesis .
qed

lemma word_in_page: 
  fixes a p :: addr
  assumes "a - p < 8" shows "a - p < PGSIZE"
  using assms unfolding PGSIZE_def by (simp add: word_less_nat_alt)

text \<open>a load from an aligned page sees only that page\<close>
lemma load64_other_page:
  assumes al: "p mod PGSIZE = 0" and ag: "\<And>a. a div PGSIZE = p div PGSIZE \<Longrightarrow> m' a = m a"
  shows "load64 m' p = load64 m p"
proof (rule load64_agree)
  fix a :: addr assume "a - p < 8"
  then have "a - p < PGSIZE" by (rule word_in_page)
  then have "a div PGSIZE = p div PGSIZE" using in_page_iff [OF al] by simp
  then show "m' a = m a" by (rule ag)
qed


subsection \<open>Writes to one page and loads from another\<close>

lemma memset_other_page:
  assumes "q mod PGSIZE = 0" and "a div PGSIZE \<noteq> q div PGSIZE"
  shows "memset q c PGSIZE m a = m a"
  using assms in_page_iff [of q a] by (simp add: memset_def)

lemma memset_same_page:
  assumes "a - q < n"
  shows "memset q c n m a = c"
  using assms by (simp add: memset_def)

lemma store64_other_page:
  assumes "q mod PGSIZE = 0" and "a div PGSIZE \<noteq> q div PGSIZE"
  shows "store64 q v m a = m a"
proof -
  have "\<not> a - q < 8"
    using assms in_page_iff [of q a] word_in_page [of a q] by auto
  then show ?thesis by (simp add: store64_def)
qed

lemma load64_memset_other:
  assumes "p mod PGSIZE = 0" "q mod PGSIZE = 0" "p \<noteq> q"
  shows "load64 (memset q c PGSIZE m) p = load64 m p"
proof (rule load64_other_page [OF assms(1)])
  fix a :: addr assume "a div PGSIZE = p div PGSIZE"
  then have "a div PGSIZE \<noteq> q div PGSIZE"
    using aligned_inj [OF assms(1,2)] assms(3) by auto
  then show "memset q c PGSIZE m a = m a" by (rule memset_other_page [OF assms(2)])
qed

lemma load64_store64_other:
  assumes "p mod PGSIZE = 0" "q mod PGSIZE = 0" "p \<noteq> q"
  shows "load64 (store64 q v m) p = load64 m p"
proof (rule load64_other_page [OF assms(1)])
  fix a :: addr assume "a div PGSIZE = p div PGSIZE"
  then have "a div PGSIZE \<noteq> q div PGSIZE"
    using aligned_inj [OF assms(1,2)] assms(3) by auto
  then show "store64 q v m a = m a" by (rule store64_other_page [OF assms(2)])
qed

subsection \<open>What each call computes\<close>

lemma kfree_panics:
  assumes "\<not> page_ok L pa"
  shows "kfree L pa s = Panic ''kfree'' s"
  using assms by (auto simp: kfree_def page_ok_def not_le not_less)

lemma decrefcnt_returns:
  assumes "pa mod PGSIZE = 0" "pa < PHYSTOP L"
  shows "decrefcnt L pa s = Return (count s (pa div PGSIZE) - 1)
           (s\<lparr>count := (count s)(pa div PGSIZE := count s (pa div PGSIZE) - 1),
              events := events s @ [Acquire Refcnt_lock, Use_count, Release Refcnt_lock]\<rparr>)"
  using assms
  by (simp add: decrefcnt_def acquire_def release_def log_event_def Let_def not_le)

lemma increfcnt_returns:
  assumes "pa mod PGSIZE = 0" "pa < PHYSTOP L"
  shows "increfcnt L pa s = Return ()
           (s\<lparr>count := (count s)(pa div PGSIZE := count s (pa div PGSIZE) + 1),
              events := events s @ [Acquire Refcnt_lock, Use_count, Release Refcnt_lock]\<rparr>)"
  using assms
  by (simp add: increfcnt_def acquire_def release_def log_event_def Let_def not_le)

lemma kfree_shared:
  assumes "page_ok L pa" "0 < sint (count s (pa div PGSIZE) - 1)"
  shows "kfree L pa s = Return ()
           (s\<lparr>count := (count s)(pa div PGSIZE := count s (pa div PGSIZE) - 1),
              events := events s @ [Acquire Refcnt_lock, Use_count, Release Refcnt_lock]\<rparr>)"
proof -
  have ok: "pa mod PGSIZE = 0" "pa < PHYSTOP L" "\<not> pa < kend L"
    using assms(1) by (auto simp: page_ok_def)
  show ?thesis
    using ok assms(2) by (simp add: kfree_def decrefcnt_returns not_le)
qed

lemma kfree_freed:
  assumes "page_ok L pa" "\<not> 0 < sint (count s (pa div PGSIZE) - 1)"
  shows "kfree L pa s = Return ()
           \<lparr>mem = store64 pa (freelist s) (memset pa 1 PGSIZE (mem s)),
            freelist = pa,
            count = (count s)(pa div PGSIZE := count s (pa div PGSIZE) - 1),
            events = events s @ [Acquire Refcnt_lock, Use_count, Release Refcnt_lock,
                                 Acquire Kmem_lock, Use_freelist, Release Kmem_lock]\<rparr>"
proof -
  have ok: "pa mod PGSIZE = 0" "pa < PHYSTOP L" "\<not> pa < kend L"
    using assms(1) by (auto simp: page_ok_def)
  show ?thesis
    using ok assms(2)
    by (simp add: kfree_def decrefcnt_returns not_le acquire_def release_def log_event_def Let_def)
qed

lemma kalloc_empty:
  assumes "freelist s = 0"
  shows "kalloc s = Return 0
           (s\<lparr>events := events s @ [Acquire Kmem_lock, Use_freelist, Release Kmem_lock]\<rparr>)"
  using assms by (simp add: kalloc_def acquire_def release_def log_event_def Let_def)

lemma kalloc_page:
  assumes "freelist s \<noteq> 0"
  shows "kalloc s = Return (freelist s)
           \<lparr>mem = memset (freelist s) 5 PGSIZE (mem s),
            freelist = load64 (mem s) (freelist s),
            count = (count s)(freelist s div PGSIZE := 1),
            events = events s @ [Acquire Kmem_lock, Use_freelist, Release Kmem_lock, Use_count]\<rparr>"
  using assms by (simp add: kalloc_def acquire_def release_def log_event_def Let_def)

subsection \<open>Chains\<close>

lemma freechain_agree:
  assumes "\<And>x. x \<in> set xs \<Longrightarrow> load64 m' x = load64 m x"
  shows "freechain m' h xs = freechain m h xs"
  using assms by (induction xs arbitrary: h) auto

lemma freechain_unique:
  assumes "freechain m h xs" "freechain m h ys"
  shows "xs = ys"
  using assms
proof (induction xs arbitrary: h ys)
  case Nil
  then show ?case by (cases ys) auto
next
  case (Cons x xs)
  then show ?case by (cases ys) auto
qed

lemma freechain_suffix:
  assumes "freechain m h (as @ x # bs)"
  shows "freechain m x (x # bs)"
  using assms by (induction as arbitrary: h) auto

lemma freechain_head_fresh:
  assumes "freechain m (load64 m x) xs"
  shows "x \<notin> set xs"
proof
  assume "x \<in> set xs"
  then obtain as bs where xs: "xs = as @ x # bs" by (auto simp: in_set_conv_decomp)
  from assms have "freechain m x (x # bs)" unfolding xs by (rule freechain_suffix)
  then have "freechain m (load64 m x) bs" by simp
  with assms have "xs = bs" by (rule freechain_unique)
  then show False unfolding xs by simp
qed

lemma freechain_distinct:
  assumes "freechain m h xs"
  shows "distinct xs"
  using assms by (induction xs arbitrary: h) (auto dest: freechain_head_fresh)

lemma walk_freechain:
  assumes "freechain m h xs"
  shows "walk n m h = take n xs"
  using assms
proof (induction n arbitrary: h xs)
  case 0
  then show ?case by simp
next
  case (Suc n)
  then show ?case by (cases xs) auto
qed

subsection \<open>The invariant of the free list\<close>

lemma free_inv_page_ok:
  assumes "free_inv L s xs" "x \<in> set xs"
  shows "page_ok L x"
  using assms by (auto simp: free_inv_def list_all_iff)

lemma free_inv_distinct:
  assumes "free_inv L s xs"
  shows "distinct xs"
  using assms by (auto simp: free_inv_def dest: freechain_distinct)

text \<open>
  A step that leaves the head pointer alone, and changes memory and table only within
  one page that is not on the list, keeps the list.
\<close>

lemma free_inv_frame:
  assumes inv: "free_inv L s xs"
    and q: "q mod PGSIZE = 0" "q \<notin> set xs"
    and m: "\<And>a. a div PGSIZE \<noteq> q div PGSIZE \<Longrightarrow> mem s' a = mem s a"
    and h: "freelist s' = freelist s"
    and c: "\<And>i. i \<noteq> q div PGSIZE \<Longrightarrow> count s' i = count s i"
  shows "free_inv L s' xs"
proof -
  have other: "x div PGSIZE \<noteq> q div PGSIZE" and al: "x mod PGSIZE = 0" if "x \<in> set xs" for x
  proof -
    show al: "x mod PGSIZE = 0"
      using free_inv_page_ok [OF inv that] by (simp add: page_ok_def)
    show "x div PGSIZE \<noteq> q div PGSIZE"
      using aligned_inj [OF al q(1)] that q(2) by auto
  qed
  have ld: "load64 (mem s') x = load64 (mem s) x" if "x \<in> set xs" for x
  proof (rule load64_other_page [OF al [OF that]])
    fix a :: addr assume "a div PGSIZE = x div PGSIZE"
    then have "a div PGSIZE \<noteq> q div PGSIZE" using other [OF that] by simp
    then show "mem s' a = mem s a" by (rule m)
  qed
  have "freechain (mem s') (freelist s') xs"
    using inv freechain_agree [of xs "mem s'" "mem s" "freelist s"] ld
    by (simp add: free_inv_def h)
  moreover have "list_all (\<lambda>p. page_ok L p \<and> sint (count s' (p div PGSIZE)) \<le> 0) xs"
    using inv c other by (auto simp: free_inv_def list_all_iff)
  ultimately show ?thesis by (simp add: free_inv_def)
qed

lemma kalloc_pop:
  assumes inv: "free_inv L s (x # xs)"
  shows "\<exists>s'. kalloc s = Return x s' \<and> free_inv L s' xs \<and>
           count s' = (count s)(x div PGSIZE := 1) \<and>
           mem s' = memset x 5 PGSIZE (mem s)"
proof -
  have hd: "freelist s = x" "x \<noteq> 0" and tl: "freechain (mem s) (load64 (mem s) x) xs"
    using inv by (auto simp: free_inv_def)
  have al: "x mod PGSIZE = 0"
    using free_inv_page_ok [OF inv, of x] by (simp add: page_ok_def)
  have fresh: "x \<notin> set xs" using tl by (rule freechain_head_fresh)
  define t where "t = s\<lparr>freelist := load64 (mem s) x\<rparr>"
  have t: "free_inv L t xs"
    using inv tl by (simp add: free_inv_def t_def)
  define s' where "s' = \<lparr>mem = memset x 5 PGSIZE (mem s),
            freelist = load64 (mem s) x,
            count = (count s)(x div PGSIZE := 1),
            events = events s @ [Acquire Kmem_lock, Use_freelist, Release Kmem_lock, Use_count]\<rparr>"
  have k: "kalloc s = Return x s'"
    using kalloc_page [of s] hd by (simp add: s'_def)
  have "free_inv L s' xs"
  proof (rule free_inv_frame [OF t al fresh])
    show "mem s' a = mem t a" if "a div PGSIZE \<noteq> x div PGSIZE" for a
      using memset_other_page [OF al that] by (simp add: s'_def t_def)
    show "freelist s' = freelist t" by (simp add: s'_def t_def)
    show "count s' i = count t i" if "i \<noteq> x div PGSIZE" for i
      using that by (simp add: s'_def t_def)
  qed
  then show ?thesis using k by (auto simp: s'_def)
qed

lemma kfree_push:
  assumes inv: "free_inv L s xs"
    and ok: "page_ok L pa" and fresh: "pa \<notin> set xs" and nz: "pa \<noteq> 0"
    and c: "\<not> 0 < sint (count s (pa div PGSIZE) - 1)"
  shows "\<exists>s'. kfree L pa s = Return () s' \<and> free_inv L s' (pa # xs) \<and>
           count s' = (count s)(pa div PGSIZE := count s (pa div PGSIZE) - 1)"
proof -
  have al: "pa mod PGSIZE = 0" using ok by (simp add: page_ok_def)
  define s' where "s' = \<lparr>mem = store64 pa (freelist s) (memset pa 1 PGSIZE (mem s)),
            freelist = pa,
            count = (count s)(pa div PGSIZE := count s (pa div PGSIZE) - 1),
            events = events s @ [Acquire Refcnt_lock, Use_count, Release Refcnt_lock,
                                 Acquire Kmem_lock, Use_freelist, Release Kmem_lock]\<rparr>"
  have k: "kfree L pa s = Return () s'"
    using kfree_freed [OF ok c] by (simp add: s'_def)
  define t where "t = s'\<lparr>freelist := freelist s\<rparr>"
  have t: "free_inv L t xs"
  proof (rule free_inv_frame [OF inv al fresh])
    show "mem t a = mem s a" if "a div PGSIZE \<noteq> pa div PGSIZE" for a
      using memset_other_page [OF al that] store64_other_page [OF al that]
      by (simp add: s'_def t_def)
    show "freelist t = freelist s" by (simp add: t_def)
    show "count t i = count s i" if "i \<noteq> pa div PGSIZE" for i
      using that by (simp add: s'_def t_def)
  qed
  have "freechain (mem s') (load64 (mem s') pa) xs"
    using t by (simp add: free_inv_def t_def s'_def load64_store64)
  moreover have "list_all (\<lambda>p. page_ok L p \<and> sint (count s' (p div PGSIZE)) \<le> 0) xs"
    using t by (simp add: free_inv_def t_def)
  moreover have "sint (count s' (pa div PGSIZE)) \<le> 0"
    using c by (simp add: s'_def not_less)
  ultimately have "free_inv L s' (pa # xs)"
    using ok nz by (simp add: free_inv_def s'_def)
  then show ?thesis using k by (auto simp: s'_def)
qed

lemma kfree_shared_inv:
  assumes inv: "free_inv L s xs"
    and ok: "page_ok L pa" and fresh: "pa \<notin> set xs"
    and c: "0 < sint (count s (pa div PGSIZE) - 1)"
  shows "\<exists>s'. kfree L pa s = Return () s' \<and> free_inv L s' xs"
proof -
  have al: "pa mod PGSIZE = 0" using ok by (simp add: page_ok_def)
  define s' where "s' = s\<lparr>count := (count s)(pa div PGSIZE := count s (pa div PGSIZE) - 1),
              events := events s @ [Acquire Refcnt_lock, Use_count, Release Refcnt_lock]\<rparr>"
  have k: "kfree L pa s = Return () s'" using kfree_shared [OF ok c] by (simp add: s'_def)
  have "free_inv L s' xs"
    by (rule free_inv_frame [OF inv al fresh]) (simp_all add: s'_def)
  then show ?thesis using k by auto
qed

lemma increfcnt_inv:
  assumes inv: "free_inv L s xs" and fresh: "pa \<notin> set xs"
    and r: "increfcnt L pa s = Return u s'"
  shows "free_inv L s' xs"
proof -
  have al: "pa mod PGSIZE = 0" and lt: "pa < PHYSTOP L"
    using r by (auto simp: increfcnt_def split: if_splits)
  have "s' = s\<lparr>count := (count s)(pa div PGSIZE := count s (pa div PGSIZE) + 1),
              events := events s @ [Acquire Refcnt_lock, Use_count, Release Refcnt_lock]\<rparr>"
    using r increfcnt_returns [OF al lt, of s] by simp
  then show ?thesis
    using free_inv_frame [OF inv al fresh, of s'] by simp
qed

lemma decrefcnt_inv:
  assumes inv: "free_inv L s xs" and fresh: "pa \<notin> set xs"
    and r: "decrefcnt L pa s = Return c s'"
  shows "free_inv L s' xs"
proof -
  have al: "pa mod PGSIZE = 0" and lt: "pa < PHYSTOP L"
    using r by (auto simp: decrefcnt_def split: if_splits)
  have "s' = s\<lparr>count := (count s)(pa div PGSIZE := count s (pa div PGSIZE) - 1),
              events := events s @ [Acquire Refcnt_lock, Use_count, Release Refcnt_lock]\<rparr>"
    using r decrefcnt_returns [OF al lt, of s] by auto
  then show ?thesis
    using free_inv_frame [OF inv al fresh, of s'] by simp
qed

subsection \<open>Sequences of calls\<close>

lemma sint_minus_one_cint: "sint (0 - 1 :: cint) = - 1"
  by simp

lemma kfree_list_seeds:
  assumes "free_inv L s xs" "distinct ps"
    and "\<forall>p\<in>set ps. page_ok L p \<and> p \<noteq> 0 \<and> p \<notin> set xs \<and> count s (p div PGSIZE) = 0"
  shows "\<exists>s'. kfree_list L ps s = Return () s' \<and> free_inv L s' (rev ps @ xs) \<and>
           (\<forall>i. count s' i = (if i \<in> (\<lambda>p. p div PGSIZE) ` set ps then - 1 else count s i))"
  using assms
proof (induction ps arbitrary: s xs)
  case Nil
  then show ?case by simp
next
  case (Cons p ps)
  have p: "page_ok L p" "p \<noteq> 0" "p \<notin> set xs" "count s (p div PGSIZE) = 0"
    using Cons.prems(3) by auto
  have c: "\<not> 0 < sint (count s (p div PGSIZE) - 1)"
    using p(4) by simp
  from kfree_push [OF Cons.prems(1) p(1) p(3) p(2) c]
  obtain s1 where s1: "kfree L p s = Return () s1" "free_inv L s1 (p # xs)"
    "count s1 = (count s)(p div PGSIZE := count s (p div PGSIZE) - 1)"
    by blast
  have rest: "\<forall>q\<in>set ps. page_ok L q \<and> q \<noteq> 0 \<and> q \<notin> set (p # xs) \<and> count s1 (q div PGSIZE) = 0"
  proof
    fix q assume q: "q \<in> set ps"
    then have qo: "page_ok L q" "q \<noteq> 0" "q \<notin> set xs" "count s (q div PGSIZE) = 0"
      using Cons.prems(3) by auto
    have ne: "q \<noteq> p" using q Cons.prems(2) by auto
    have "q div PGSIZE \<noteq> p div PGSIZE"
      using aligned_inj [of q p] qo(1) p(1) ne by (auto simp: page_ok_def)
    then show "page_ok L q \<and> q \<noteq> 0 \<and> q \<notin> set (p # xs) \<and> count s1 (q div PGSIZE) = 0"
      using qo ne by (simp add: s1(3))
  qed
  have d: "distinct ps" using Cons.prems(2) by simp
  from Cons.IH [OF s1(2) d rest]
  obtain s' where s': "kfree_list L ps s1 = Return () s'" "free_inv L s' (rev ps @ p # xs)"
    "\<forall>i. count s' i = (if i \<in> (\<lambda>p. p div PGSIZE) ` set ps then - 1 else count s1 i)"
    by blast
  have "kfree_list L (p # ps) s = Return () s'" using s1(1) s'(1) by simp
  moreover have "free_inv L s' (rev (p # ps) @ xs)" using s'(2) by simp
  moreover have "\<forall>i. count s' i = (if i \<in> (\<lambda>p. p div PGSIZE) ` set (p # ps) then - 1 else count s i)"
    using s'(3) p(4) by (auto simp: s1(3))
  ultimately show ?case by blast
qed

lemma kalloc_times_pops:
  assumes "free_inv L s (xs @ ys)"
  shows "\<exists>s'. kalloc_times (length xs) s = (xs, s') \<and> free_inv L s' ys \<and>
           (\<forall>i. count s' i = (if i \<in> (\<lambda>p. p div PGSIZE) ` set xs then 1 else count s i))"
  using assms
proof (induction xs arbitrary: s)
  case Nil
  then show ?case by simp
next
  case (Cons x xs)
  have "free_inv L s (x # (xs @ ys))" using Cons.prems by simp
  from kalloc_pop [OF this]
  obtain s1 where s1: "kalloc s = Return x s1" "free_inv L s1 (xs @ ys)"
    "count s1 = (count s)(x div PGSIZE := 1)"
    by blast
  from Cons.IH [OF s1(2)]
  obtain s' where s': "kalloc_times (length xs) s1 = (xs, s')" "free_inv L s' ys"
    "\<forall>i. count s' i = (if i \<in> (\<lambda>p. p div PGSIZE) ` set xs then 1 else count s1 i)"
    by blast
  have "kalloc_times (length (x # xs)) s = (x # xs, s')" using s1(1) s'(1) by simp
  moreover have "\<forall>i. count s' i = (if i \<in> (\<lambda>p. p div PGSIZE) ` set (x # xs) then 1 else count s i)"
    using s'(3) by (auto simp: s1(3))
  ultimately show ?case using s'(2) by blast
qed

subsection \<open>The loop of freerange\<close>

lemma unat_PGSIZE: "unat PGSIZE = 4096"
  by (simp add: PGSIZE_def)

lemma unat_next_page:
  fixes p :: addr
  assumes "unat p + 4096 < 2 ^ 64"
  shows "unat (p + PGSIZE) = unat p + 4096"
proof -
  have "unat p + unat PGSIZE < 2 ^ LENGTH(64)" using assms by (simp add: unat_PGSIZE)
  then have "unat (p + PGSIZE) = unat p + unat PGSIZE" by (rule iffD1 [OF unat_add_lem])
  then show ?thesis by (simp add: unat_PGSIZE)
qed

lemma pages_from_Suc:
  fixes p :: addr
  shows "map (\<lambda>i. p + PGSIZE * of_nat i) [0 ..< Suc n] =
         p # map (\<lambda>i. (p + PGSIZE) + PGSIZE * of_nat i) [0 ..< n]"
proof -
  have "[0 ..< Suc n] = 0 # map Suc [0 ..< n]"
    by (simp add: upt_conv_Cons map_Suc_upt del: upt_Suc)
  then have "map (\<lambda>i. p + PGSIZE * of_nat i) [0 ..< Suc n] =
      (p + PGSIZE * of_nat 0) # map ((\<lambda>i. p + PGSIZE * of_nat i) \<circ> Suc) [0 ..< n]"
    by (simp only: list.map map_map)
  also have "\<dots> = p # map (\<lambda>i. (p + PGSIZE) + PGSIZE * of_nat i) [0 ..< n]"
    by (simp add: comp_def algebra_simps)
  finally show ?thesis .
qed

lemma freerange_loop_pages:
  assumes "(unat e - unat p) div 4096 = n" "unat p + 4096 < 2 ^ 64" "unat e + 4096 < 2 ^ 64"
  shows "freerange_loop L p e s =
           Some (kfree_list L (map (\<lambda>i. p + PGSIZE * of_nat i) [0 ..< n]) s)"
  using assms
proof (induction n arbitrary: p s)
  case 0
  have "unat (p + PGSIZE) = unat p + 4096" using "0.prems"(2) by (rule unat_next_page)
  moreover have "unat e - unat p < 4096" using "0.prems"(1) by (simp add: div_eq_0_iff)
  ultimately have "\<not> p + PGSIZE \<le> e" by (simp add: word_le_nat_alt)
  then show ?case by (subst freerange_loop.simps) simp
next
  case (Suc n)
  have up: "unat (p + PGSIZE) = unat p + 4096" using Suc.prems(2) by (rule unat_next_page)
  have ge: "4096 \<le> unat e - unat p"
  proof (rule ccontr)
    assume "\<not> 4096 \<le> unat e - unat p"
    then have "(unat e - unat p) div 4096 = 0" by simp
    with Suc.prems(1) show False by simp
  qed
  then have test: "p + PGSIZE \<le> e" using up by (simp add: word_le_nat_alt)
  have "unat e - unat (p + PGSIZE) = (unat e - unat p) - 4096" using up by simp
  then have n: "(unat e - unat (p + PGSIZE)) div 4096 = n"
    using Suc.prems(1) le_div_geq [OF _ ge] by simp
  have b: "unat (p + PGSIZE) + 4096 < 2 ^ 64" using up ge Suc.prems(3) by simp
  show ?case
  proof (cases "kfree L p s")
    case (Panic msg s')
    then show ?thesis
      using test by (subst freerange_loop.simps) (simp add: pages_from_Suc del: upt_Suc)
  next
    case (Return u s')
    then show ?thesis
      using test Suc.IH [OF n b Suc.prems(3), of s']
      by (subst freerange_loop.simps) (simp add: pages_from_Suc del: upt_Suc)
  qed
qed

lemma and_not_4095:
  fixes x :: addr
  shows "x AND NOT 4095 = push_bit 12 (drop_bit 12 x)"
proof -
  have "(4095 :: addr) = mask 12" by (simp add: mask_eq_exp_minus_1)
  then show ?thesis
    by (simp add: bit_eq_iff bit_simps) (auto simp: bit_simps)
qed

lemma unat_PGROUNDUP:
  assumes "unat a + 4095 < 2 ^ 64"
  shows "unat (PGROUNDUP a) = round_up (unat a)"
proof -
  have "unat a + unat (4095 :: addr) < 2 ^ LENGTH(64)" using assms by simp
  then have "unat (a + 4095) = unat a + unat (4095 :: addr)"
    by (rule iffD1 [OF unat_add_lem])
  then have u: "unat (a + 4095) = unat a + 4095" by simp
  have "PGROUNDUP a = (a + 4095) AND NOT 4095"
    by (simp add: PGROUNDUP_def PGSIZE_def add.commute)
  also have "\<dots> = push_bit 12 (drop_bit 12 (a + 4095))"
    by (rule and_not_4095)
  finally have r: "PGROUNDUP a = push_bit 12 (drop_bit 12 (a + 4095))" .
  have "unat (a + 4095) < 2 ^ 64" using unsigned_less [of "a + 4095"] by simp
  then have t: "take_bit 64 (unat (a + 4095)) = unat (a + 4095)"
    by (rule take_bit_nat_eq_self)
  have "unat (PGROUNDUP a) = take_bit 64 (push_bit 12 (drop_bit 12 (unat (a + 4095))))"
    unfolding r by (simp add: unsigned_push_bit_eq unsigned_drop_bit_eq t)
  also have "\<dots> = take_bit 64 ((unat a + 4095) div 4096 * 4096)"
    by (simp add: u push_bit_eq_mult drop_bit_eq_div)
  also have "\<dots> = (unat a + 4095) div 4096 * 4096"
  proof (rule take_bit_nat_eq_self)
    have "(unat a + 4095) div 4096 * 4096 \<le> unat a + 4095" by simp
    then show "(unat a + 4095) div 4096 * 4096 < 2 ^ 64" using assms by linarith
  qed
  finally show ?thesis by (simp add: round_up_def)
qed

subsection \<open>The pages of a range\<close>

lemma round_up_props:
  shows "round_up n mod 4096 = 0" and "n \<le> round_up n" and "round_up n \<le> n + 4095"
proof -
  show "round_up n mod 4096 = 0" by (simp add: round_up_def)
  have "n + 4095 = (n + 4095) div 4096 * 4096 + (n + 4095) mod 4096" by simp
  moreover have "(n + 4095) mod 4096 < 4096" by simp
  ultimately show "n \<le> round_up n" unfolding round_up_def by linarith
  show "round_up n \<le> n + 4095" by (simp add: round_up_def)
qed

lemma seed_pages_unat:
  fixes pa_start pa_end :: addr
  assumes i: "i < (unat pa_end - round_up (unat pa_start)) div 4096"
  shows "unat (of_nat (round_up (unat pa_start) + 4096 * i) :: addr) =
           round_up (unat pa_start) + 4096 * i"
    and "round_up (unat pa_start) + 4096 * i + 4096 \<le> unat pa_end"
proof -
  define P where "P = round_up (unat pa_start)"
  define n where "n = (unat pa_end - P) div 4096"
  have "4096 * n \<le> unat pa_end - P" unfolding n_def by simp
  moreover have "Suc i \<le> n" using i unfolding n_def P_def by simp
  then have "4096 * Suc i \<le> 4096 * n" by simp
  ultimately have le: "P + 4096 * i + 4096 \<le> unat pa_end" by simp
  then show "round_up (unat pa_start) + 4096 * i + 4096 \<le> unat pa_end"
    unfolding P_def .
  have "unat pa_end < 2 ^ 64" using unsigned_less [of pa_end] by simp
  then have "P + 4096 * i < 2 ^ LENGTH(64)" using le by simp
  then show "unat (of_nat (round_up (unat pa_start) + 4096 * i) :: addr) =
           round_up (unat pa_start) + 4096 * i"
    unfolding P_def by (simp only: unat_of_nat mod_less)
qed

lemma aligned_unat:
  fixes p :: addr
  shows "(p mod PGSIZE = 0) = (unat p mod 4096 = 0)"
proof -
  have "(p mod PGSIZE = 0) = (unat (p mod PGSIZE) = 0)" by (simp add: unat_eq_0)
  then show ?thesis by (simp add: unat_mod unat_PGSIZE)
qed

lemma seed_pages_set:
  "(p \<in> set (seed_pages pa_start pa_end)) =
     (p mod PGSIZE = 0 \<and> round_up (unat pa_start) \<le> unat p \<and> unat p + 4096 \<le> unat pa_end)"
proof
  assume "p \<in> set (seed_pages pa_start pa_end)"
  then obtain i where i: "i < (unat pa_end - round_up (unat pa_start)) div 4096"
    and p: "p = of_nat (round_up (unat pa_start) + 4096 * i)"
    by (auto simp: seed_pages_def)
  have u: "unat p = round_up (unat pa_start) + 4096 * i"
    unfolding p using i by (rule seed_pages_unat)
  have "unat p mod 4096 = 0" unfolding u using round_up_props(1) [of "unat pa_start"] by simp
  moreover have "unat p + 4096 \<le> unat pa_end"
    unfolding u using i by (rule seed_pages_unat)
  ultimately show "p mod PGSIZE = 0 \<and> round_up (unat pa_start) \<le> unat p \<and>
      unat p + 4096 \<le> unat pa_end"
    using u by (simp add: aligned_unat)
next
  assume a: "p mod PGSIZE = 0 \<and> round_up (unat pa_start) \<le> unat p \<and>
      unat p + 4096 \<le> unat pa_end"
  define P where "P = round_up (unat pa_start)"
  define i where "i = (unat p - P) div 4096"
  have pm: "unat p mod 4096 = 0" using a by (simp add: aligned_unat)
  have Pm: "P mod 4096 = 0" unfolding P_def by (rule round_up_props)
  have le: "P \<le> unat p" using a by (simp add: P_def)
  have "(unat p - P) mod 4096 = 0" using pm Pm le by (simp add: mod_eq_0_iff_dvd dvd_diff_nat)
  then have d: "unat p - P = 4096 * i" unfolding i_def by (simp add: mod_eq_0_iff_dvd)
  then have u: "unat p = P + 4096 * i" using le by simp
  have "P + 4096 * i + 4096 \<le> unat pa_end" using a u by simp
  then have "4096 * i + 4096 \<le> unat pa_end - P" by linarith
  then have "4096 * Suc i \<le> unat pa_end - P" by simp
  then have "Suc i \<le> (unat pa_end - P) div 4096"
    by (simp add: less_eq_div_iff_mult_less_eq mult.commute)
  then have "i \<in> set [0 ..< (unat pa_end - P) div 4096]" by simp
  moreover have "p = (\<lambda>i. of_nat (P + 4096 * i)) i" using u [symmetric] by simp
  ultimately have "p \<in> (\<lambda>i. of_nat (P + 4096 * i)) ` set [0 ..< (unat pa_end - P) div 4096]"
    by (rule rev_image_eqI)
  then show "p \<in> set (seed_pages pa_start pa_end)"
    unfolding seed_pages_def P_def set_map .
qed

lemma seed_pages_ascending: "sorted_wrt (<) (seed_pages pa_start pa_end)"
proof -
  have "seed_pages pa_start pa_end ! i < seed_pages pa_start pa_end ! j"
    if "i < j" "j < length (seed_pages pa_start pa_end)" for i j
  proof -
    have j: "j < (unat pa_end - round_up (unat pa_start)) div 4096"
      using that(2) by (simp add: seed_pages_def)
    then have i: "i < (unat pa_end - round_up (unat pa_start)) div 4096"
      using that(1) by simp
    show ?thesis
      using that(1) i j seed_pages_unat(1) [OF i] seed_pages_unat(1) [OF j]
      by (simp add: seed_pages_def word_less_nat_alt)
  qed
  then show ?thesis by (simp add: sorted_wrt_iff_nth_less)
qed

lemma seed_pages_from:
  assumes "unat pa_start + 4095 < 2 ^ 64"
  shows "seed_pages pa_start pa_end =
     map (\<lambda>i. PGROUNDUP pa_start + PGSIZE * of_nat i)
       [0 ..< (unat pa_end - unat (PGROUNDUP pa_start)) div 4096]"
proof -
  have u: "unat (PGROUNDUP pa_start) = round_up (unat pa_start)"
    by (rule unat_PGROUNDUP [OF assms])
  have "of_nat (round_up (unat pa_start)) = PGROUNDUP pa_start"
    unfolding u [symmetric] by simp
  then have "of_nat (round_up (unat pa_start) + 4096 * i) = PGROUNDUP pa_start + PGSIZE * of_nat i"
    for i by (simp add: PGSIZE_def)
  then show ?thesis
    unfolding seed_pages_def u by simp
qed

lemma freerange_kfree_list:
  assumes "unat pa_start + 8192 \<le> 2 ^ 64" and "unat pa_end + 4096 < 2 ^ 64"
  shows "freerange L pa_start pa_end s = Some (kfree_list L (seed_pages pa_start pa_end) s)"
proof -
  have a: "unat pa_start + 4095 < 2 ^ 64" using assms(1) by simp
  have "unat (PGROUNDUP pa_start) \<le> unat pa_start + 4095"
    using unat_PGROUNDUP [OF a] round_up_props(3) [of "unat pa_start"] by simp
  then have b: "unat (PGROUNDUP pa_start) + 4096 < 2 ^ 64" using assms(1) by simp
  show ?thesis
    unfolding freerange_def seed_pages_from [OF a]
    by (rule freerange_loop_pages [OF refl b assms(2)])
qed

subsection \<open>The state after kinit\<close>

lemma seed_pages_ok:
  assumes L: "layout_ok L" and p: "p \<in> set (seed_pages (kend L) (PHYSTOP L))"
  shows "page_ok L p" and "p \<noteq> 0"
proof -
  have f: "p mod PGSIZE = 0" "round_up (unat (kend L)) \<le> unat p"
    "unat p + 4096 \<le> unat (PHYSTOP L)"
    using p by (simp_all add: seed_pages_set)
  have k: "unat (kend L) \<le> unat p"
    using f(2) round_up_props(2) [of "unat (kend L)"] by simp
  then show "page_ok L p"
    using f by (simp add: page_ok_def word_le_nat_alt word_less_nat_alt)
  have "0 < unat p" using k L by (simp add: layout_ok_def)
  then show "p \<noteq> 0" by auto
qed

lemma kinit_seeds:
  assumes L: "layout_ok L" and b: "boot_state s0"
  shows "\<exists>s. kinit L s0 = Some (Return () s) \<and>
           free_inv L s (rev (seed_pages (kend L) (PHYSTOP L))) \<and>
           (\<forall>i. count s i =
              (if i \<in> (\<lambda>p. p div PGSIZE) ` set (seed_pages (kend L) (PHYSTOP L)) then - 1 else 0))"
proof -
  have k: "kinit L s0 = Some (kfree_list L (seed_pages (kend L) (PHYSTOP L)) s0)"
    unfolding kinit_def using L by (intro freerange_kfree_list) (simp_all add: layout_ok_def)
  have e: "free_inv L s0 []" using b by (simp add: free_inv_def boot_state_def)
  have d: "distinct (seed_pages (kend L) (PHYSTOP L))"
    using seed_pages_ascending [of "kend L" "PHYSTOP L"] by (simp add: strict_sorted_iff)
  have "\<forall>p\<in>set (seed_pages (kend L) (PHYSTOP L)).
      page_ok L p \<and> p \<noteq> 0 \<and> p \<notin> set [] \<and> count s0 (p div PGSIZE) = 0"
    using seed_pages_ok [OF L] b by (simp add: boot_state_def)
  from kfree_list_seeds [OF e d this]
  obtain s where s: "kfree_list L (seed_pages (kend L) (PHYSTOP L)) s0 = Return () s"
    "free_inv L s (rev (seed_pages (kend L) (PHYSTOP L)) @ [])"
    "\<forall>i. count s i =
      (if i \<in> (\<lambda>p. p div PGSIZE) ` set (seed_pages (kend L) (PHYSTOP L)) then - 1
       else count s0 i)"
    by blast
  have "count s0 i = 0" for i using b by (simp add: boot_state_def)
  then show ?thesis using s by (auto simp: k)
qed

subsection \<open>The example with three pages\<close>

lemma seed_pages_L3: "seed_pages (kend L3) (PHYSTOP L3) = [0x1000, 0x2000, 0x3000]"
  by (simp add: seed_pages_def round_up_def L3_def upt_rec)

lemma layout_ok_L3: "layout_ok L3"
  by (simp add: layout_ok_def L3_def)

lemma boot_zero_state: "boot_state zero_state"
  by (simp add: boot_state_def zero_state_def)

lemma page_ok_L3: "page_ok L3 0x1000" "page_ok L3 0x2000" "page_ok L3 0x3000"
  by (simp_all add: page_ok_def L3_def PGSIZE_def)

subsection \<open>Decrementing a C int\<close>

lemma sint_dec:
  fixes c :: cint
  assumes "- 2147483648 < sint c"
  shows "sint (c - 1) = sint c - 1"
proof -
  have "sint c < 2147483648" using sint_lt [of c] by simp
  then have "signed_take_bit 31 (sint c - 1) = sint c - 1"
    using assms by (simp add: signed_take_bit_int_eq_self)
  then show ?thesis by (simp add: sint_word_ariths)
qed

lemma kfree_returns_page_ok:
  assumes "kfree L pa s = Return u s'"
  shows "page_ok L pa"
proof (rule ccontr)
  assume "\<not> page_ok L pa"
  then have "kfree L pa s = Panic ''kfree'' s" by (rule kfree_panics)
  with assms show False by simp
qed

lemma kfree_never_panics_ok:
  assumes "page_ok L pa"
  shows "\<exists>s'. kfree L pa s = Return () s'"
proof (cases "0 < sint (count s (pa div PGSIZE) - 1)")
  case True
  then show ?thesis using kfree_shared [OF assms] by blast
next
  case False
  then show ?thesis using kfree_freed [OF assms] by blast
qed

lemma kinit_L3:
  "kinit L3 zero_state = Some (Return () seeded3)"
  "free_inv L3 seeded3 [0x3000, 0x2000, 0x1000]"
  "count seeded3 (0x3000 div PGSIZE) = - 1"
proof -
  from kinit_seeds [OF layout_ok_L3 boot_zero_state]
  obtain s where s: "kinit L3 zero_state = Some (Return () s)"
    "free_inv L3 s (rev (seed_pages (kend L3) (PHYSTOP L3)))"
    "\<forall>i. count s i =
      (if i \<in> (\<lambda>p. p div PGSIZE) ` set (seed_pages (kend L3) (PHYSTOP L3)) then - 1 else 0)"
    by blast
  have "kinit L3 zero_state = Some (kfree_list L3 (seed_pages (kend L3) (PHYSTOP L3)) zero_state)"
    unfolding kinit_def by (rule freerange_kfree_list) (simp_all add: L3_def)
  then have "kfree_list L3 [0x1000, 0x2000, 0x3000] zero_state = Return () s"
    using s(1) by (simp add: seed_pages_L3)
  then have e: "seeded3 = s" by (simp add: seeded3_def outcome_state_def)
  show "kinit L3 zero_state = Some (Return () seeded3)" using s(1) e by simp
  show "free_inv L3 seeded3 [0x3000, 0x2000, 0x1000]" using s(2) e by (simp add: seed_pages_L3)
  show "count seeded3 (0x3000 div PGSIZE) = - 1" using s(3) e by (simp add: seed_pages_L3)
qed

lemma alloc3_facts:
  "kalloc seeded3 = Return 0x3000 alloc3"
  "free_inv L3 alloc3 [0x2000, 0x1000]"
  "count alloc3 (0x3000 div PGSIZE) = 1"
proof -
  from kalloc_pop [OF kinit_L3(2)]
  obtain s' where s': "kalloc seeded3 = Return 0x3000 s'" "free_inv L3 s' [0x2000, 0x1000]"
    "count s' = (count seeded3)(0x3000 div PGSIZE := 1)"
    by blast
  have e: "alloc3 = s'" using s'(1) by (simp add: alloc3_def outcome_state_def)
  show "kalloc seeded3 = Return 0x3000 alloc3" using s'(1) e by simp
  show "free_inv L3 alloc3 [0x2000, 0x1000]" using s'(2) e by simp
  show "count alloc3 (0x3000 div PGSIZE) = 1" using s'(3) e by simp
qed

lemma page_ok_L3_iff:
  "page_ok L3 p = (p mod PGSIZE = 0 \<and> 0x1000 \<le> p \<and> p < 0x4000)"
  by (simp add: page_ok_def L3_def)

lemma shared3_facts:
  "increfcnt L3 0x3000 alloc3 = Return () shared3"
  "free_inv L3 shared3 [0x2000, 0x1000]"
  "count shared3 (0x3000 div PGSIZE) = 2"
proof -
  have a: "(0x3000 :: addr) mod PGSIZE = 0" "0x3000 < PHYSTOP L3"
    by (simp_all add: PGSIZE_def L3_def)
  note r = increfcnt_returns [OF a, of alloc3]
  then have e: "shared3 = alloc3\<lparr>count := (count alloc3)
                 (0x3000 div PGSIZE := count alloc3 (0x3000 div PGSIZE) + 1),
              events := events alloc3 @ [Acquire Refcnt_lock, Use_count, Release Refcnt_lock]\<rparr>"
    by (simp add: shared3_def outcome_state_def)
  show i: "increfcnt L3 0x3000 alloc3 = Return () shared3" using r e by simp
  show "free_inv L3 shared3 [0x2000, 0x1000]"
    by (rule increfcnt_inv [OF alloc3_facts(2) _ i]) simp
  show "count shared3 (0x3000 div PGSIZE) = 2" using alloc3_facts(3) by (simp add: e)
qed

lemma kalloc_Return:
  assumes "kalloc s = Return r s'" "r \<noteq> 0"
  shows "r = freelist s" "count s' = (count s)(r div PGSIZE := 1)"
    "freelist s' = load64 (mem s) r" "mem s' = memset r 5 PGSIZE (mem s)"
proof -
  have nz: "freelist s \<noteq> 0"
  proof
    assume "freelist s = 0"
    from kalloc_empty [OF this] assms show False by simp
  qed
  from kalloc_page [OF nz] assms(1)
  show "r = freelist s" "count s' = (count s)(r div PGSIZE := 1)"
    "freelist s' = load64 (mem s) r" "mem s' = memset r 5 PGSIZE (mem s)"
    by auto
qed

lemma kfree_last_owner:
  assumes r: "kfree L pa s = Return u s'" and c: "count s (pa div PGSIZE) = 1"
  shows "freelist s' = pa" "load64 (mem s') pa = freelist s"
    "count s' = (count s)(pa div PGSIZE := 0)"
    "\<And>a. a div PGSIZE \<noteq> pa div PGSIZE \<Longrightarrow> mem s' a = mem s a"
proof -
  have ok: "page_ok L pa" using r by (rule kfree_returns_page_ok)
  then have al: "pa mod PGSIZE = 0" by (simp add: page_ok_def)
  have z: "\<not> 0 < sint (count s (pa div PGSIZE) - 1)" using c by simp
  have e: "s' = \<lparr>mem = store64 pa (freelist s) (memset pa 1 PGSIZE (mem s)),
            freelist = pa,
            count = (count s)(pa div PGSIZE := count s (pa div PGSIZE) - 1),
            events = events s @ [Acquire Refcnt_lock, Use_count, Release Refcnt_lock,
                                 Acquire Kmem_lock, Use_freelist, Release Kmem_lock]\<rparr>"
    using kfree_freed [OF ok z] r by simp
  show "freelist s' = pa" by (simp add: e)
  show "load64 (mem s') pa = freelist s" by (simp add: e load64_store64)
  show "count s' = (count s)(pa div PGSIZE := 0)" using c by (simp add: e)
  show "mem s' a = mem s a" if "a div PGSIZE \<noteq> pa div PGSIZE" for a
    using memset_other_page [OF al that] store64_other_page [OF al that] by (simp add: e)
qed

lemma kalloc_null_iff: "(\<exists>s'. kalloc s = Return 0 s') = (freelist s = 0)"
proof
  assume "\<exists>s'. kalloc s = Return 0 s'"
  then obtain s' where r: "kalloc s = Return 0 s'" by blast
  show "freelist s = 0"
  proof (rule ccontr)
    assume nz: "freelist s \<noteq> 0"
    from kalloc_page [OF nz] r nz show False by simp
  qed
next
  assume "freelist s = 0"
  from kalloc_empty [OF this] show "\<exists>s'. kalloc s = Return 0 s'" by blast
qed

lemma kalloc_returns: "\<exists>r s'. kalloc s = Return r s'"
  using kalloc_empty [of s] kalloc_page [of s] by (cases "freelist s = 0") blast+

lemma PGROUNDUP_next_boundary:
  assumes "unat pa_start + 4095 < 2 ^ 64"
  shows "PGROUNDUP pa_start mod PGSIZE = 0" and "pa_start \<le> PGROUNDUP pa_start"
    and "unat (PGROUNDUP pa_start) < unat pa_start + 4096"
proof -
  note u = unat_PGROUNDUP [OF assms]
  show "PGROUNDUP pa_start mod PGSIZE = 0"
    using round_up_props(1) [of "unat pa_start"] by (simp add: aligned_unat u)
  show "pa_start \<le> PGROUNDUP pa_start"
    using round_up_props(2) [of "unat pa_start"] by (simp add: word_le_nat_alt u)
  show "unat (PGROUNDUP pa_start) < unat pa_start + 4096"
    using round_up_props(3) [of "unat pa_start"] by (simp add: u)
qed

subsection \<open>Releasing a page that is on the free list\<close>

lemma freechain_nonzero:
  assumes "freechain m h xs"
  shows "0 \<notin> set xs"
  using assms by (induction xs arbitrary: h) auto

lemma walk_prefix:
  assumes "freechain m h (as @ x # bs)" and "\<And>y. y \<in> set as \<Longrightarrow> load64 m' y = load64 m y"
  shows "walk (Suc (length as)) m' h = as @ [x]"
  using assms
proof (induction as arbitrary: h)
  case Nil
  then show ?case by auto
next
  case (Cons a as)
  have h: "h = a" "a \<noteq> 0" and tl: "freechain m (load64 m a) (as @ x # bs)"
    using Cons.prems(1) by auto
  have "load64 m' a = load64 m a" using Cons.prems(2) by simp
  moreover have "walk (Suc (length as)) m' (load64 m a) = as @ [x]"
    using Cons.IH [OF tl] Cons.prems(2) by simp
  ultimately show ?case using h by simp
qed

lemma kfree_again:
  assumes ok: "page_ok L pa"
    and c: "sint (count s (pa div PGSIZE)) \<le> 0" "- 2147483648 < sint (count s (pa div PGSIZE))"
  shows "\<exists>s'. kfree L pa s = Return () s' \<and>
           sint (count s' (pa div PGSIZE)) = sint (count s (pa div PGSIZE)) - 1 \<and>
           freelist s' = pa \<and> load64 (mem s') pa = freelist s \<and>
           (\<forall>as bs. free_inv L s (as @ pa # bs) \<and> pa \<notin> set as \<longrightarrow>
              walk (length as + 2) (mem s') (freelist s') = pa # as @ [pa])"
proof -
  have al: "pa mod PGSIZE = 0" using ok by (simp add: page_ok_def)
  have d: "sint (count s (pa div PGSIZE) - 1) = sint (count s (pa div PGSIZE)) - 1"
    using c(2) by (rule sint_dec)
  then have z: "\<not> 0 < sint (count s (pa div PGSIZE) - 1)" using c(1) by simp
  define s' where "s' = \<lparr>mem = store64 pa (freelist s) (memset pa 1 PGSIZE (mem s)),
            freelist = pa,
            count = (count s)(pa div PGSIZE := count s (pa div PGSIZE) - 1),
            events = events s @ [Acquire Refcnt_lock, Use_count, Release Refcnt_lock,
                                 Acquire Kmem_lock, Use_freelist, Release Kmem_lock]\<rparr>"
  have k: "kfree L pa s = Return () s'" using kfree_freed [OF ok z] by (simp add: s'_def)
  have ld: "load64 (mem s') pa = freelist s" by (simp add: s'_def load64_store64)
  have cyc: "walk (length as + 2) (mem s') (freelist s') = pa # as @ [pa]"
    if inv: "free_inv L s (as @ pa # bs) \<and> pa \<notin> set as" for as bs
  proof -
    have ch: "freechain (mem s) (freelist s) (as @ pa # bs)" using inv by (simp add: free_inv_def)
    have nz: "pa \<noteq> 0" using freechain_nonzero [OF ch] by auto
    have same: "load64 (mem s') y = load64 (mem s) y" if y: "y \<in> set as" for y
    proof -
      have "page_ok L y" using inv y by (auto simp: free_inv_def list_all_iff)
      then have ya: "y mod PGSIZE = 0" by (simp add: page_ok_def)
      have "y \<noteq> pa" using inv y by auto
      then show ?thesis
        using load64_store64_other [OF ya al] load64_memset_other [OF ya al]
        by (simp add: s'_def)
    qed
    have "walk (Suc (length as)) (mem s') (freelist s) = as @ [pa]"
      using ch same by (rule walk_prefix)
    then show ?thesis using nz ld by (simp add: s'_def)
  qed
  have "sint (count s' (pa div PGSIZE)) = sint (count s (pa div PGSIZE)) - 1"
    using d by (simp add: s'_def)
  moreover have "freelist s' = pa" by (simp add: s'_def)
  ultimately show ?thesis using k ld cyc by blast
qed

lemma dbl3_facts:
  "kfree L3 0x3000 seeded3 = Return () dbl3"
  "sint (count dbl3 (0x3000 div PGSIZE)) = - 2"
  "walk 2 (mem dbl3) (freelist dbl3) = [0x3000, 0x3000]"
proof -
  have c: "sint (count seeded3 (0x3000 div PGSIZE)) \<le> 0"
    "- 2147483648 < sint (count seeded3 (0x3000 div PGSIZE))"
    by (simp_all add: kinit_L3(3))
  from kfree_again [OF page_ok_L3(3) c]
  obtain s' where s': "kfree L3 0x3000 seeded3 = Return () s'"
    "sint (count s' (0x3000 div PGSIZE)) = sint (count seeded3 (0x3000 div PGSIZE)) - 1"
    "\<forall>as bs. free_inv L3 seeded3 (as @ 0x3000 # bs) \<and> 0x3000 \<notin> set as \<longrightarrow>
              walk (length as + 2) (mem s') (freelist s') = 0x3000 # as @ [0x3000]"
    by blast
  have e: "dbl3 = s'" using s'(1) by (simp add: dbl3_def outcome_state_def)
  show "kfree L3 0x3000 seeded3 = Return () dbl3" using s'(1) e by simp
  show "sint (count dbl3 (0x3000 div PGSIZE)) = - 2" using s'(2) e by (simp add: kinit_L3(3))
  have "free_inv L3 seeded3 ([] @ 0x3000 # [0x2000, 0x1000]) \<and> 0x3000 \<notin> set []"
    using kinit_L3(2) by simp
  with s'(3) have "walk (length ([] :: addr list) + 2) (mem s') (freelist s') = 0x3000 # [] @ [0x3000]"
    by blast
  then have "walk 2 (mem s') (freelist s') = [0x3000, 0x3000]"
    by (simp only: list.size add_0 append.simps)
  then show "walk 2 (mem dbl3) (freelist dbl3) = [0x3000, 0x3000]" unfolding e .
qed

subsection \<open>The log of each call\<close>

lemma kfree_events:
  "events (outcome_state (kfree L pa s)) = events s @
     (if \<not> page_ok L pa then []
      else if 0 < sint (count s (pa div PGSIZE) - 1)
      then [Acquire Refcnt_lock, Use_count, Release Refcnt_lock]
      else [Acquire Refcnt_lock, Use_count, Release Refcnt_lock,
            Acquire Kmem_lock, Use_freelist, Release Kmem_lock])"
proof (cases "page_ok L pa")
  case False
  then show ?thesis using kfree_panics [OF False, of s] by (simp add: outcome_state_def)
next
  case True
  then show ?thesis
    using kfree_shared [OF True, of s] kfree_freed [OF True, of s]
    by (simp add: outcome_state_def)
qed

lemma kalloc_events:
  "events (outcome_state (kalloc s)) = events s @
     (if freelist s = 0 then [Acquire Kmem_lock, Use_freelist, Release Kmem_lock]
      else [Acquire Kmem_lock, Use_freelist, Release Kmem_lock, Use_count])"
  using kalloc_empty [of s] kalloc_page [of s] by (simp add: outcome_state_def)

lemma increfcnt_events:
  "events (outcome_state (increfcnt L pa s)) = events s @
     (if pa mod PGSIZE \<noteq> 0 \<or> PHYSTOP L \<le> pa then []
      else [Acquire Refcnt_lock, Use_count, Release Refcnt_lock])"
  by (simp add: increfcnt_def outcome_state_def acquire_def release_def log_event_def Let_def)

lemma decrefcnt_events:
  "events (outcome_state (decrefcnt L pa s)) = events s @
     (if pa mod PGSIZE \<noteq> 0 \<or> PHYSTOP L \<le> pa then []
      else [Acquire Refcnt_lock, Use_count, Release Refcnt_lock])"
  by (simp add: decrefcnt_def outcome_state_def acquire_def release_def log_event_def Let_def)

lemma getrefcnt_events:
  "events (outcome_state (getrefcnt pa s)) = events s @ [Use_count]"
  by (simp add: getrefcnt_def outcome_state_def log_event_def)

subsection \<open>The invariant along the calls\<close>

lemma free_inv_events:
  assumes "free_inv L s xs"
  shows "free_inv L (s\<lparr>events := es\<rparr>) xs"
  using assms by (simp add: free_inv_def)

lemma kalloc_inv:
  assumes inv: "free_inv L s xs" and r: "kalloc s = Return p s'"
  shows "free_inv L s' (tl xs)"
proof (cases xs)
  case Nil
  then have "freelist s = 0" using inv by (simp add: free_inv_def)
  from kalloc_empty [OF this] r
  have "s' = s\<lparr>events := events s @ [Acquire Kmem_lock, Use_freelist, Release Kmem_lock]\<rparr>"
    by simp
  then show ?thesis using inv Nil free_inv_events [of L s xs] by simp
next
  case (Cons x ys)
  from kalloc_pop [of L s x ys] inv Cons r show ?thesis by auto
qed

subsection \<open>The loop of freerange keeps the invariant\<close>

lemma aligned_next:
  fixes p :: addr
  assumes "p mod PGSIZE = 0"
  shows "(p + PGSIZE) mod PGSIZE = 0"
proof -
  have m: "unat p mod 4096 = 0" using assms by (simp add: aligned_unat)
  have d: "(4096 :: nat) dvd 2 ^ 64" by simp
  have "unat (p + PGSIZE) = (unat p + 4096) mod 2 ^ 64"
    by (simp add: unat_word_ariths unat_PGSIZE)
  then have "unat (p + PGSIZE) mod 4096 = (unat p + 4096) mod 4096"
    by (simp only: mod_mod_cancel [OF d])
  then have "unat (p + PGSIZE) mod 4096 = 0" using m by simp
  then show ?thesis by (simp add: aligned_unat)
qed

lemma aligned_below_top:
  fixes p :: addr
  assumes "p mod PGSIZE = 0"
  shows "unat p + 4096 \<le> 2 ^ 64"
proof -
  have m: "unat p mod 4096 = 0" using assms by (simp add: aligned_unat)
  define k where "k = unat p div 4096"
  have P: "unat p = 4096 * k" using m unfolding k_def by (metis add.right_neutral mult_div_mod_eq)
  have "unat p < 18446744073709551616" using unsigned_less [of p] by simp
  then have "k < 4503599627370496" unfolding P by linarith
  then have "4096 * k + 4096 \<le> 18446744073709551616" by linarith
  then show ?thesis unfolding P by simp
qed

lemma PGROUNDUP_aligned: "PGROUNDUP a mod PGSIZE = 0"
proof -
  have "PGROUNDUP a = (a + 4095) AND NOT 4095"
    by (simp add: PGROUNDUP_def PGSIZE_def add.commute)
  also have "\<dots> = push_bit 12 (drop_bit 12 (a + 4095))" by (rule and_not_4095)
  also have "\<dots> = drop_bit 12 (a + 4095) * 4096" by (simp add: push_bit_eq_mult)
  finally have r: "PGROUNDUP a = drop_bit 12 (a + 4095) * 4096" .
  have d: "(4096 :: nat) dvd 2 ^ 64" by simp
  have "unat (PGROUNDUP a) = (unat (drop_bit 12 (a + 4095)) * 4096) mod 2 ^ 64"
    unfolding r by (simp add: unat_word_ariths)
  then have "unat (PGROUNDUP a) mod 4096 = (unat (drop_bit 12 (a + 4095)) * 4096) mod 4096"
    by (simp only: mod_mod_cancel [OF d])
  then show ?thesis by (simp add: aligned_unat)
qed

lemma kfree_inv_any:
  assumes inv: "free_inv L s xs" and fresh: "pa \<notin> set xs"
    and r: "kfree L pa s = Return u s'"
  shows "\<exists>ys. free_inv L s' ys \<and> set ys \<subseteq> insert pa (set xs)"
proof -
  have ok: "page_ok L pa" using r by (rule kfree_returns_page_ok)
  show ?thesis
  proof (cases "0 < sint (count s (pa div PGSIZE) - 1)")
    case True
    from kfree_shared_inv [OF inv ok fresh True] r have "free_inv L s' xs" by auto
    then show ?thesis by blast
  next
    case False
    show ?thesis
    proof (cases "pa = 0")
      case True
      have "freelist s' = 0" using kfree_freed [OF ok False] r True by auto
      then have "free_inv L s' []" by (simp add: free_inv_def)
      then show ?thesis by (intro exI [of _ "[]"]) simp
    next
      case nz: False
      from kfree_push [OF inv ok fresh nz False] r have "free_inv L s' (pa # xs)" by auto
      then show ?thesis by (intro exI [of _ "pa # xs"]) simp
    qed
  qed
qed

lemma freerange_loop_inv:
  assumes "freerange_loop L p e s = Some y"
  shows "seeding_keeps L p e s y"
proof (rule freerange_loop.raw_induct [where P = seeding_keeps, OF _ assms])
  fix f L p e s y
  assume IH: "\<And>L p e s y. f L p e s = Some y \<Longrightarrow> seeding_keeps L p e s y"
    and eq: "(if p + PGSIZE \<le> e
      then case kfree L p s of
           Return u s' \<Rightarrow> f L (p + PGSIZE) e s'
           | Panic msg s' \<Rightarrow> Some (Panic msg s')
      else Some (Return () s)) = Some y"
  show "seeding_keeps L p e s y"
    unfolding seeding_keeps_def
  proof (intro impI conjI allI)
    assume a: "e = PHYSTOP L \<and> p mod PGSIZE = 0"
    then have al: "p mod PGSIZE = 0" and e: "e = PHYSTOP L" by simp_all
    have al': "(p + PGSIZE) mod PGSIZE = 0" using al by (rule aligned_next)
    {
      fix s' assume top: "- PGSIZE < PHYSTOP L"
      have "unat (p + PGSIZE) + 4096 \<le> 2 ^ 64" using al' by (rule aligned_below_top)
      then have "p + PGSIZE \<le> - PGSIZE" by (simp add: word_le_nat_alt PGSIZE_def)
      then have test: "p + PGSIZE \<le> e" using top e by simp
      show "y \<noteq> Return () s'"
      proof (cases "kfree L p s")
        case (Panic msg t)
        then show ?thesis using eq test by auto
      next
        case (Return u t)
        then have "f L (p + PGSIZE) e t = Some y" using eq test by simp
        from IH [OF this] e al' top show ?thesis by (simp add: seeding_keeps_def)
      qed
    }
    {
      fix xs s'
      assume b: "free_inv L s xs \<and> (\<forall>x\<in>set xs. x < p) \<and> y = Return () s'"
      then have inv: "free_inv L s xs" and below: "\<forall>x\<in>set xs. x < p" and y: "y = Return () s'"
        by simp_all
      show "\<exists>ys. free_inv L s' ys"
      proof (cases "p + PGSIZE \<le> e")
        case False
        then have "s' = s" using eq y by simp
        then show ?thesis using inv by blast
      next
        case test: True
        show ?thesis
        proof (cases "kfree L p s")
          case (Panic msg t)
          then show ?thesis using eq test y by simp
        next
          case (Return u t)
          then have f: "f L (p + PGSIZE) e t = Some y" using eq test by simp
          have fresh: "p \<notin> set xs" using below by auto
          from kfree_inv_any [OF inv fresh Return]
          obtain ys where ys: "free_inv L t ys" "set ys \<subseteq> insert p (set xs)" by blast
          have ok: "page_ok L p" using Return by (rule kfree_returns_page_ok)
          have k: "seeding_keeps L (p + PGSIZE) e t y" using f by (rule IH)
          show ?thesis
          proof (cases "unat p + 4096 < 2 ^ 64")
            case True
            then have "unat (p + PGSIZE) = unat p + 4096" by (rule unat_next_page)
            then have lt: "p < p + PGSIZE" by (simp add: word_less_nat_alt)
            have "x < p + PGSIZE" if "x \<in> set ys" for x
            proof (cases "x = p")
              case True
              then show ?thesis using lt by simp
            next
              case False
              then have "x < p" using that ys(2) below by auto
              then show ?thesis using lt by (rule less_trans)
            qed
            then have "\<forall>x\<in>set ys. x < p + PGSIZE" by blast
            with k e al' ys(1) y show ?thesis unfolding seeding_keeps_def by blast
          next
            case False
            moreover have "unat p + 4096 \<le> 2 ^ 64" using al by (rule aligned_below_top)
            ultimately have "unat p = 18446744073709547520" by simp
            then have "p = - PGSIZE" by (simp add: word_unat_eq_iff PGSIZE_def)
            then have "- PGSIZE < PHYSTOP L" using ok by (simp add: page_ok_def)
            with k e al' y show ?thesis unfolding seeding_keeps_def by blast
          qed
        qed
      qed
    }
  qed
qed

lemma kinit_inv:
  assumes b: "boot_state s0" and k: "kinit L s0 = Some (Return () s)"
  shows "\<exists>xs. free_inv L s xs"
proof -
  have l: "freerange_loop L (PGROUNDUP (kend L)) (PHYSTOP L) s0 = Some (Return () s)"
    using k by (simp add: kinit_def freerange_def)
  have e: "free_inv L s0 []" using b by (simp add: free_inv_def boot_state_def)
  from freerange_loop_inv [OF l] PGROUNDUP_aligned [of "kend L"] e show ?thesis
    by (auto simp: seeding_keeps_def)
qed

lemma decrefcnt_inv_listed:
  assumes inv: "free_inv L s xs" and listed: "pa \<in> set xs"
    and c: "- 2147483648 < sint (count s (pa div PGSIZE))"
    and r: "decrefcnt L pa s = Return v s'"
  shows "free_inv L s' xs"
proof -
  have al: "pa mod PGSIZE = 0" and lt: "pa < PHYSTOP L"
    using r by (auto simp: decrefcnt_def split: if_splits)
  have e: "s' = s\<lparr>count := (count s)(pa div PGSIZE := count s (pa div PGSIZE) - 1),
              events := events s @ [Acquire Refcnt_lock, Use_count, Release Refcnt_lock]\<rparr>"
    using r decrefcnt_returns [OF al lt, of s] by auto
  have old: "sint (count s (pa div PGSIZE)) \<le> 0"
    using inv listed by (auto simp: free_inv_def list_all_iff)
  have "sint (count s (pa div PGSIZE) - 1) = sint (count s (pa div PGSIZE)) - 1"
    using c by (rule sint_dec)
  then have new: "sint (count s (pa div PGSIZE) - 1) \<le> 0" using old by simp
  have "freechain (mem s') (freelist s') xs" using inv by (simp add: free_inv_def e)
  moreover have "list_all (\<lambda>p. page_ok L p \<and> sint (count s' (p div PGSIZE)) \<le> 0) xs"
    using inv new by (auto simp: free_inv_def list_all_iff e)
  ultimately show ?thesis by (simp add: free_inv_def)
qed

lemma dec3_facts:
  "decrefcnt L3 0x3000 seeded3 = Return (- 2) dec3"
  "free_inv L3 dec3 [0x3000, 0x2000, 0x1000]"
  "count dec3 (0x3000 div PGSIZE) = - 2"
proof -
  have a: "(0x3000 :: addr) mod PGSIZE = 0" "0x3000 < PHYSTOP L3"
    by (simp_all add: PGSIZE_def L3_def)
  note r = decrefcnt_returns [OF a, of seeded3]
  then have e: "dec3 = seeded3\<lparr>count := (count seeded3)
                 (0x3000 div PGSIZE := count seeded3 (0x3000 div PGSIZE) - 1),
              events := events seeded3 @ [Acquire Refcnt_lock, Use_count, Release Refcnt_lock]\<rparr>"
    by (simp add: dec3_def outcome_state_def)
  show d: "decrefcnt L3 0x3000 seeded3 = Return (- 2) dec3"
    using r e by (simp add: kinit_L3(3))
  have c: "- 2147483648 < sint (count seeded3 (0x3000 div PGSIZE))"
    by (simp add: kinit_L3(3))
  show "free_inv L3 dec3 [0x3000, 0x2000, 0x1000]"
    by (rule decrefcnt_inv_listed [OF kinit_L3(2) _ c d]) simp
  show "count dec3 (0x3000 div PGSIZE) = - 2" by (simp add: e kinit_L3(3))
qed

lemma reachable_free_inv:
  assumes r: "reachable L s"
  shows "\<exists>xs. free_inv L s xs"
  using r
proof (induction rule: reachable.induct)
  case (after_kinit s0 s)
  then show ?case by (rule kinit_inv)
next
  case (after_kalloc s r s')
  then show ?case using kalloc_inv by blast
next
  case (after_kfree s pa s')
  then obtain xs where xs: "free_inv L s xs" by blast
  then have "pa \<notin> set xs" using after_kfree(2) by (auto simp: on_freelist_def free_inv_def)
  from kfree_inv_any [OF xs this after_kfree(3)] show ?case by blast
next
  case (after_increfcnt s pa s')
  then obtain xs where xs: "free_inv L s xs" by blast
  then have "pa \<notin> set xs" using after_increfcnt(2) by (auto simp: on_freelist_def free_inv_def)
  from increfcnt_inv [OF xs this after_increfcnt(3)] show ?case by blast
next
  case (after_decrefcnt s pa c s')
  then obtain xs where xs: "free_inv L s xs" by blast
  show ?case
  proof (cases "pa \<in> set xs")
    case True
    then have "on_freelist s pa" using xs by (auto simp: on_freelist_def free_inv_def)
    then have "- 2147483648 < sint (count s (pa div PGSIZE))" using after_decrefcnt(2) by simp
    from decrefcnt_inv_listed [OF xs True this after_decrefcnt(3)] show ?thesis by blast
  next
    case False
    from decrefcnt_inv [OF xs False after_decrefcnt(3)] show ?thesis by blast
  qed
next
  case (after_getrefcnt s pa c s')
  then obtain xs where xs: "free_inv L s xs" by blast
  have "s' = s\<lparr>events := events s @ [Use_count]\<rparr>"
    using after_getrefcnt(2) by (auto simp: getrefcnt_def log_event_def)
  then show ?case using free_inv_events [OF xs] by blast
qed

section \<open>Properties\<close>

text \<open>
  C1. Whenever \<^verbatim>\<open>kalloc\<close> returns a page (a non-null address), the reference count
  of that page, as \<^verbatim>\<open>getrefcnt\<close> reads it right after the call, is exactly 1. This
  holds for every returned address, so in particular for the page-aligned addresses of
  the managed range.
\<close>

theorem kalloc_refcnt_one:
  assumes "kalloc s = Return r s'" and "r \<noteq> 0"
  shows "\<exists>s''. getrefcnt r s' = Return 1 s''"
  using assms
  by (auto simp: kalloc_def getrefcnt_def log_event_def acquire_def release_def Let_def
      split: if_splits)

theorem kalloc_refcnt_one_witness:
  "kalloc seeded3 = Return 0x3000 alloc3 \<and> (0x3000 :: addr) \<noteq> 0 \<and>
   (\<exists>s''. getrefcnt 0x3000 alloc3 = Return 1 s'')"
proof -
  have n: "(0x3000 :: addr) \<noteq> 0" by simp
  show ?thesis
    using kalloc_refcnt_one [OF alloc3_facts(1) n] alloc3_facts(1) n by simp
qed

text \<open>
  C6. \<^verbatim>\<open>kfree\<close> panics exactly when the address is not page-aligned, or is at or above
  \<^verbatim>\<open>PHYSTOP\<close>, or is below \<^verbatim>\<open>end\<close>; \<^verbatim>\<open>increfcnt\<close> and \<^verbatim>\<open>decrefcnt\<close> panic exactly
  when the address is not page-aligned or is at or above \<^verbatim>\<open>PHYSTOP\<close>. The state in
  which the kernel stops is the state before the call.
\<close>

theorem panic_conditions:
  "((\<exists>msg s'. kfree L pa s = Panic msg s') =
      (pa mod PGSIZE \<noteq> 0 \<or> pa < kend L \<or> PHYSTOP L \<le> pa)) \<and>
   (\<forall>msg s'. kfree L pa s = Panic msg s' \<longrightarrow> s' = s) \<and>
   ((\<exists>msg s'. increfcnt L pa s = Panic msg s') = (pa mod PGSIZE \<noteq> 0 \<or> PHYSTOP L \<le> pa)) \<and>
   (\<forall>msg s'. increfcnt L pa s = Panic msg s' \<longrightarrow> s' = s) \<and>
   ((\<exists>msg s'. decrefcnt L pa s = Panic msg s') = (pa mod PGSIZE \<noteq> 0 \<or> PHYSTOP L \<le> pa)) \<and>
   (\<forall>msg s'. decrefcnt L pa s = Panic msg s' \<longrightarrow> s' = s)"
proof -
  have np: "(\<not> page_ok L pa) = (pa mod PGSIZE \<noteq> 0 \<or> pa < kend L \<or> PHYSTOP L \<le> pa)"
    by (simp only: page_ok_def de_Morgan_conj not_le not_less)
  have k1: "(\<exists>msg s'. kfree L pa s = Panic msg s') =
      (pa mod PGSIZE \<noteq> 0 \<or> pa < kend L \<or> PHYSTOP L \<le> pa)"
  proof (cases "page_ok L pa")
    case True
    then obtain s' where "kfree L pa s = Return () s'"
      using kfree_never_panics_ok by blast
    then show ?thesis using True unfolding np [symmetric] by simp
  next
    case False
    then show ?thesis using kfree_panics [OF False, of s] unfolding np [symmetric] by simp
  qed
  have k2: "\<forall>msg s'. kfree L pa s = Panic msg s' \<longrightarrow> s' = s"
  proof (cases "page_ok L pa")
    case True
    then obtain s' where "kfree L pa s = Return () s'"
      using kfree_never_panics_ok by blast
    then show ?thesis by simp
  next
    case False
    then show ?thesis using kfree_panics [OF False, of s] by simp
  qed
  have i: "(\<exists>msg s'. increfcnt L pa s = Panic msg s') = (pa mod PGSIZE \<noteq> 0 \<or> PHYSTOP L \<le> pa)"
    "\<forall>msg s'. increfcnt L pa s = Panic msg s' \<longrightarrow> s' = s"
    by (auto simp: increfcnt_def Let_def)
  have d: "(\<exists>msg s'. decrefcnt L pa s = Panic msg s') = (pa mod PGSIZE \<noteq> 0 \<or> PHYSTOP L \<le> pa)"
    "\<forall>msg s'. decrefcnt L pa s = Panic msg s' \<longrightarrow> s' = s"
    by (auto simp: decrefcnt_def Let_def)
  show ?thesis using k1 k2 i d by blast
qed

theorem panic_conditions_witness:
  "kfree L3 0x1001 seeded3 = Panic ''kfree'' seeded3 \<and>
   kfree L3 0x4000 seeded3 = Panic ''kfree'' seeded3 \<and>
   kfree L3 0 seeded3 = Panic ''kfree'' seeded3 \<and>
   (\<exists>s'. kfree L3 0x1000 seeded3 = Return () s') \<and>
   increfcnt L3 0x1001 seeded3 = Panic ''increfcnt'' seeded3 \<and>
   increfcnt L3 0x4000 seeded3 = Panic ''increfcnt'' seeded3 \<and>
   (\<exists>s'. increfcnt L3 0 seeded3 = Return () s') \<and>
   decrefcnt L3 0x1001 seeded3 = Panic ''decrefcnt'' seeded3 \<and>
   decrefcnt L3 0x4000 seeded3 = Panic ''decrefcnt'' seeded3 \<and>
   (\<exists>c s'. decrefcnt L3 0 seeded3 = Return c s')"
proof -
  have a: "(0x1001 :: addr) mod PGSIZE \<noteq> 0" "PHYSTOP L3 \<le> 0x4000" "(0 :: addr) < kend L3"
    "(0x1000 :: addr) mod PGSIZE = 0" "\<not> PHYSTOP L3 \<le> 0x1000" "\<not> 0x1000 < kend L3"
    "(0 :: addr) mod PGSIZE = 0" "\<not> PHYSTOP L3 \<le> 0"
    by (simp_all add: PGSIZE_def L3_def)
  have k: "kfree L3 0x1001 seeded3 = Panic ''kfree'' seeded3"
    "kfree L3 0x4000 seeded3 = Panic ''kfree'' seeded3"
    "kfree L3 0 seeded3 = Panic ''kfree'' seeded3"
    using a by (simp_all add: kfree_def)
  have i: "increfcnt L3 0x1001 seeded3 = Panic ''increfcnt'' seeded3"
    "increfcnt L3 0x4000 seeded3 = Panic ''increfcnt'' seeded3"
    using a by (simp_all add: increfcnt_def)
  have d: "decrefcnt L3 0x1001 seeded3 = Panic ''decrefcnt'' seeded3"
    "decrefcnt L3 0x4000 seeded3 = Panic ''decrefcnt'' seeded3"
    using a by (simp_all add: decrefcnt_def)
  have r1: "\<exists>s'. kfree L3 0x1000 seeded3 = Return () s'"
    using panic_conditions [of L3 "0x1000" seeded3] a
    by (cases "kfree L3 0x1000 seeded3") auto
  have r2: "\<exists>s'. increfcnt L3 0 seeded3 = Return () s'"
    using panic_conditions [of L3 0 seeded3] a
    by (cases "increfcnt L3 0 seeded3") auto
  have r3: "\<exists>c s'. decrefcnt L3 0 seeded3 = Return c s'"
    using panic_conditions [of L3 0 seeded3] a
    by (cases "decrefcnt L3 0 seeded3") auto
  show ?thesis using k i d r1 r2 r3 by simp
qed

text \<open>
  C4. Let \<open>P\<close> be a page that \<^verbatim>\<open>kfree\<close> accepts. If its reference count is greater than
  1, \<^verbatim>\<open>kfree\<close> lowers the count by one and changes neither the head of the free list nor
  the memory, so the pages that later calls of \<^verbatim>\<open>kalloc\<close> return are those of the free
  list as it was, and \<open>P\<close> is not among them. If the count is 1 (and \<open>P\<close> is not the null
  address), \<^verbatim>\<open>kfree\<close> lowers it to 0 and the next \<^verbatim>\<open>kalloc\<close> returns \<open>P\<close>.
\<close>

theorem shared_release:
  assumes ok: "page_ok L P"
  shows "(1 < sint (count s (P div PGSIZE)) \<longrightarrow>
           (\<exists>s'. kfree L P s = Return () s' \<and>
              sint (count s' (P div PGSIZE)) = sint (count s (P div PGSIZE)) - 1 \<and>
              (\<forall>i. i \<noteq> P div PGSIZE \<longrightarrow> count s' i = count s i) \<and>
              freelist s' = freelist s \<and> mem s' = mem s \<and>
              (\<forall>xs. free_inv L s xs \<and> P \<notin> set xs \<longrightarrow>
                 (\<exists>s2 s3. kalloc_times (length xs) s' = (xs, s2) \<and> kalloc s2 = Return 0 s3)))) \<and>
         (sint (count s (P div PGSIZE)) = 1 \<and> P \<noteq> 0 \<longrightarrow>
           (\<exists>s' s''. kfree L P s = Return () s' \<and> sint (count s' (P div PGSIZE)) = 0 \<and>
              freelist s' = P \<and> kalloc s' = Return P s''))"
proof (intro conjI impI)
  assume c: "1 < sint (count s (P div PGSIZE))"
  have d: "sint (count s (P div PGSIZE) - 1) = sint (count s (P div PGSIZE)) - 1"
    using c by (intro sint_dec) simp
  then have pos: "0 < sint (count s (P div PGSIZE) - 1)" using c by simp
  define s' where "s' = s\<lparr>count := (count s)(P div PGSIZE := count s (P div PGSIZE) - 1),
              events := events s @ [Acquire Refcnt_lock, Use_count, Release Refcnt_lock]\<rparr>"
  have k: "kfree L P s = Return () s'" using kfree_shared [OF ok pos] by (simp add: s'_def)
  have later: "\<exists>s2 s3. kalloc_times (length xs) s' = (xs, s2) \<and> kalloc s2 = Return 0 s3"
    if "free_inv L s xs \<and> P \<notin> set xs" for xs
  proof -
    from kfree_shared_inv [OF _ ok _ pos, of xs] that k
    have "free_inv L s' (xs @ [])" by auto
    from kalloc_times_pops [OF this]
    obtain s2 where s2: "kalloc_times (length xs) s' = (xs, s2)" "free_inv L s2 []" by blast
    have "freelist s2 = 0" using s2(2) by (simp add: free_inv_def)
    then show ?thesis using s2(1) kalloc_empty [of s2] by blast
  qed
  show "\<exists>s'. kfree L P s = Return () s' \<and>
              sint (count s' (P div PGSIZE)) = sint (count s (P div PGSIZE)) - 1 \<and>
              (\<forall>i. i \<noteq> P div PGSIZE \<longrightarrow> count s' i = count s i) \<and>
              freelist s' = freelist s \<and> mem s' = mem s \<and>
              (\<forall>xs. free_inv L s xs \<and> P \<notin> set xs \<longrightarrow>
                 (\<exists>s2 s3. kalloc_times (length xs) s' = (xs, s2) \<and> kalloc s2 = Return 0 s3))"
    using k d later by (intro exI [of _ s']) (simp add: s'_def)
next
  assume c: "sint (count s (P div PGSIZE)) = 1 \<and> P \<noteq> 0"
  have d: "sint (count s (P div PGSIZE) - 1) = 0"
    using c sint_dec [of "count s (P div PGSIZE)"] by simp
  then have z: "\<not> 0 < sint (count s (P div PGSIZE) - 1)" by simp
  define s' where "s' = \<lparr>mem = store64 P (freelist s) (memset P 1 PGSIZE (mem s)),
            freelist = P,
            count = (count s)(P div PGSIZE := count s (P div PGSIZE) - 1),
            events = events s @ [Acquire Refcnt_lock, Use_count, Release Refcnt_lock,
                                 Acquire Kmem_lock, Use_freelist, Release Kmem_lock]\<rparr>"
  have k: "kfree L P s = Return () s'" using kfree_freed [OF ok z] by (simp add: s'_def)
  have "freelist s' \<noteq> 0" using c by (simp add: s'_def)
  from kalloc_page [OF this] obtain s'' where "kalloc s' = Return P s''" by (simp add: s'_def)
  moreover have "sint (count s' (P div PGSIZE)) = 0" "freelist s' = P"
    using d by (simp_all add: s'_def)
  ultimately show "\<exists>s' s''. kfree L P s = Return () s' \<and> sint (count s' (P div PGSIZE)) = 0 \<and>
              freelist s' = P \<and> kalloc s' = Return P s''"
    using k by blast
qed

theorem shared_release_witness:
  "page_ok L3 0x3000 \<and> sint (count shared3 (0x3000 div PGSIZE)) = 2 \<and>
   free_inv L3 shared3 [0x2000, 0x1000] \<and>
   (\<exists>s'. kfree L3 0x3000 shared3 = Return () s' \<and>
      sint (count s' (0x3000 div PGSIZE)) = 1 \<and>
      freelist s' = freelist shared3 \<and> mem s' = mem shared3 \<and>
      (\<exists>s2 s3. kalloc_times 2 s' = ([0x2000, 0x1000], s2) \<and> kalloc s2 = Return 0 s3) \<and>
      (\<exists>t t'. kfree L3 0x3000 s' = Return () t \<and> sint (count t (0x3000 div PGSIZE)) = 0 \<and>
         kalloc t = Return 0x3000 t'))"
proof -
  have ok: "page_ok L3 0x3000" by (rule page_ok_L3)
  have c: "sint (count shared3 (0x3000 div PGSIZE)) = 2" by (simp add: shared3_facts(3))
  from shared_release [OF ok, of shared3] c
  obtain s' where s': "kfree L3 0x3000 shared3 = Return () s'"
    "sint (count s' (0x3000 div PGSIZE)) = 1"
    "freelist s' = freelist shared3" "mem s' = mem shared3"
    "\<forall>xs. free_inv L3 shared3 xs \<and> 0x3000 \<notin> set xs \<longrightarrow>
       (\<exists>s2 s3. kalloc_times (length xs) s' = (xs, s2) \<and> kalloc s2 = Return 0 s3)"
    by auto
  have "free_inv L3 shared3 [0x2000, 0x1000] \<and> 0x3000 \<notin> set [0x2000, 0x1000 :: addr]"
    using shared3_facts(2) by simp
  with s'(5)
  have "\<exists>s2 s3. kalloc_times (length [0x2000, 0x1000 :: addr]) s' = ([0x2000, 0x1000], s2) \<and>
      kalloc s2 = Return 0 s3"
    by blast
  then have l: "\<exists>s2 s3. kalloc_times 2 s' = ([0x2000, 0x1000], s2) \<and> kalloc s2 = Return 0 s3"
    by (simp add: numeral_2_eq_2)
  from shared_release [OF ok, of s'] s'(2)
  have "\<exists>t t'. kfree L3 0x3000 s' = Return () t \<and> sint (count t (0x3000 div PGSIZE)) = 0 \<and>
         kalloc t = Return 0x3000 t'"
    by auto
  then show ?thesis using ok c shared3_facts(2) s' l by blast
qed

text \<open>
  C3. The free list is a stack. Let \<^verbatim>\<open>kalloc\<close> return the page \<open>A\<close> and then the page
  \<open>B\<close>, two distinct non-null addresses, and let \<^verbatim>\<open>kfree\<close> then release \<open>A\<close> and
  after it \<open>B\<close> (each count falls from 1 to 0). Then the next two calls of \<^verbatim>\<open>kalloc\<close>
  return \<open>B\<close> first and \<open>A\<close> second.
\<close>

theorem stack_order:
  assumes a: "kalloc s = Return A s1" and b: "kalloc s1 = Return B s2"
    and nz: "A \<noteq> 0" "B \<noteq> 0" and ne: "A \<noteq> B"
    and fa: "kfree L A s2 = Return () s3" and fb: "kfree L B s3 = Return () s4"
  shows "sint (count s3 (A div PGSIZE)) = 0 \<and> sint (count s4 (B div PGSIZE)) = 0 \<and>
         (\<exists>s5 s6. kalloc s4 = Return B s5 \<and> kalloc s5 = Return A s6)"
proof -
  have alA: "A mod PGSIZE = 0" and alB: "B mod PGSIZE = 0"
    using kfree_returns_page_ok [OF fa] kfree_returns_page_ok [OF fb]
    by (simp_all add: page_ok_def)
  have idx: "A div PGSIZE \<noteq> B div PGSIZE"
    using aligned_inj [OF alA alB] ne by auto
  have c2: "count s2 (A div PGSIZE) = 1" "count s2 (B div PGSIZE) = 1"
    using kalloc_Return(2) [OF a nz(1)] kalloc_Return(2) [OF b nz(2)] idx by simp_all
  note A = kfree_last_owner [OF fa c2(1)]
  have c3: "count s3 (B div PGSIZE) = 1" using c2(2) idx by (simp add: A(3))
  note B = kfree_last_owner [OF fb c3]
  have h4: "freelist s4 \<noteq> 0" using nz(2) by (simp add: B(1))
  from kalloc_page [OF h4] obtain s5 where s5: "kalloc s4 = Return B s5" by (simp add: B(1))
  have "freelist s5 = load64 (mem s4) B" using kalloc_Return(3) [OF s5 nz(2)] .
  then have f5: "freelist s5 = A" by (simp add: B(2) A(1))
  then have "freelist s5 \<noteq> 0" using nz(1) by simp
  from kalloc_page [OF this] obtain s6 where s6: "kalloc s5 = Return A s6" by (simp add: f5)
  show ?thesis using s5 s6 by (auto simp: A(3) B(3))
qed

theorem stack_order_witness:
  "\<exists>s1 s2 s3 s4 s5 s6.
     kalloc seeded3 = Return 0x3000 s1 \<and> kalloc s1 = Return 0x2000 s2 \<and>
     kfree L3 0x3000 s2 = Return () s3 \<and> kfree L3 0x2000 s3 = Return () s4 \<and>
     kalloc s4 = Return 0x2000 s5 \<and> kalloc s5 = Return 0x3000 s6"
proof -
  note a = alloc3_facts(1)
  from kalloc_pop [OF alloc3_facts(2)]
  obtain s2 where b: "kalloc alloc3 = Return 0x2000 s2" by blast
  from kfree_never_panics_ok [OF page_ok_L3(3), of s2]
  obtain s3 where fa: "kfree L3 0x3000 s2 = Return () s3" by blast
  from kfree_never_panics_ok [OF page_ok_L3(2), of s3]
  obtain s4 where fb: "kfree L3 0x2000 s3 = Return () s4" by blast
  from stack_order [OF a b _ _ _ fa fb]
  obtain s5 s6 where "kalloc s4 = Return 0x2000 s5" "kalloc s5 = Return 0x3000 s6" by auto
  then show ?thesis using a b fa fb by blast
qed

text \<open>
  C5. \<^verbatim>\<open>kalloc\<close> never panics, and it returns the null address exactly when the free list
  is empty at the call. After \<^verbatim>\<open>kinit\<close> has seeded \<open>k\<close> pages, \<open>k\<close> calls of \<^verbatim>\<open>kalloc\<close>
  return \<open>k\<close> non-null addresses and the next call returns null; when one of the
  allocated pages is then released, the next \<^verbatim>\<open>kalloc\<close> succeeds again (it returns that
  page).
\<close>

theorem exhaustion:
  assumes L: "layout_ok L" and b: "boot_state s0"
    and k: "k = length (seed_pages (kend L) (PHYSTOP L))"
  shows "(\<forall>s. (\<exists>s'. kalloc s = Return 0 s') = (freelist s = 0)) \<and>
         (\<forall>s. \<exists>r s'. kalloc s = Return r s') \<and>
         (\<exists>s1 rs s2 s3. kinit L s0 = Some (Return () s1) \<and>
            kalloc_times k s1 = (rs, s2) \<and> length rs = k \<and> 0 \<notin> set rs \<and>
            kalloc s2 = Return 0 s3 \<and>
            (\<forall>p\<in>set rs. \<exists>s4 s5. kfree L p s3 = Return () s4 \<and> kalloc s4 = Return p s5))"
proof -
  define ps where "ps = seed_pages (kend L) (PHYSTOP L)"
  from kinit_seeds [OF L b]
  obtain s1 where s1: "kinit L s0 = Some (Return () s1)" "free_inv L s1 (rev ps @ [])"
    unfolding ps_def by auto
  from kalloc_times_pops [OF s1(2)]
  obtain s2 where s2: "kalloc_times (length (rev ps)) s1 = (rev ps, s2)" "free_inv L s2 []"
    "\<forall>i. count s2 i = (if i \<in> (\<lambda>p. p div PGSIZE) ` set (rev ps) then 1 else count s1 i)"
    by blast
  have e: "freelist s2 = 0" using s2(2) by (simp add: free_inv_def)
  define s3 where "s3 = s2\<lparr>events := events s2 @ [Acquire Kmem_lock, Use_freelist, Release Kmem_lock]\<rparr>"
  have s3: "kalloc s2 = Return 0 s3" using kalloc_empty [OF e] by (simp add: s3_def)
  have nz: "0 \<notin> set (rev ps)" using seed_pages_ok(2) [OF L] unfolding ps_def by auto
  have again: "\<exists>s4 s5. kfree L p s3 = Return () s4 \<and> kalloc s4 = Return p s5"
    if p: "p \<in> set (rev ps)" for p
  proof -
    have ok: "page_ok L p" and pz: "p \<noteq> 0"
      using p seed_pages_ok [OF L, of p] unfolding ps_def by simp_all
    have "count s3 (p div PGSIZE) = 1" using s2(3) p by (simp add: s3_def)
    then have z: "\<not> 0 < sint (count s3 (p div PGSIZE) - 1)" by simp
    from kfree_freed [OF ok z] obtain s4 where s4: "kfree L p s3 = Return () s4" "freelist s4 = p"
      by simp
    then have "freelist s4 \<noteq> 0" using pz by simp
    from kalloc_page [OF this] s4 show ?thesis by simp
  qed
  have "kinit L s0 = Some (Return () s1) \<and>
      kalloc_times k s1 = (rev ps, s2) \<and> length (rev ps) = k \<and> 0 \<notin> set (rev ps) \<and>
      kalloc s2 = Return 0 s3 \<and>
      (\<forall>p\<in>set (rev ps). \<exists>s4 s5. kfree L p s3 = Return () s4 \<and> kalloc s4 = Return p s5)"
    using s1(1) s2(1) s3 nz again k by (simp add: ps_def)
  then show ?thesis using kalloc_null_iff kalloc_returns by blast
qed

theorem exhaustion_witness:
  "layout_ok L3 \<and> boot_state zero_state \<and> length (seed_pages (kend L3) (PHYSTOP L3)) = 3 \<and>
   (\<exists>s2 s3 s4 s5. kinit L3 zero_state = Some (Return () seeded3) \<and>
      kalloc_times 3 seeded3 = ([0x3000, 0x2000, 0x1000], s2) \<and>
      kalloc s2 = Return 0 s3 \<and>
      kfree L3 0x2000 s3 = Return () s4 \<and> kalloc s4 = Return 0x2000 s5)"
proof -
  have k: "3 = length (seed_pages (kend L3) (PHYSTOP L3))" by (simp add: seed_pages_L3)
  from exhaustion [OF layout_ok_L3 boot_zero_state k]
  obtain s1 rs s2 s3 where r: "kinit L3 zero_state = Some (Return () s1)"
    "kalloc_times 3 s1 = (rs, s2)" "kalloc s2 = Return 0 s3"
    "\<forall>p\<in>set rs. \<exists>s4 s5. kfree L3 p s3 = Return () s4 \<and> kalloc s4 = Return p s5"
    by blast
  have s1: "s1 = seeded3" using r(1) kinit_L3(1) by simp
  have "free_inv L3 seeded3 ([0x3000, 0x2000, 0x1000] @ [])" using kinit_L3(2) by simp
  from kalloc_times_pops [OF this]
  obtain t where "kalloc_times (length [0x3000, 0x2000, 0x1000 :: addr]) seeded3 =
      ([0x3000, 0x2000, 0x1000], t)"
    by blast
  moreover have "length [0x3000, 0x2000, 0x1000 :: addr] = 3" by simp
  ultimately have "kalloc_times 3 seeded3 = ([0x3000, 0x2000, 0x1000], t)" by (simp only:)
  then have rs: "rs = [0x3000, 0x2000, 0x1000]" using r(2) s1 by (simp only: prod.inject)
  then have "\<exists>s4 s5. kfree L3 0x2000 s3 = Return () s4 \<and> kalloc s4 = Return 0x2000 s5"
    using r(4) by simp
  then have "\<exists>s2 s3 s4 s5. kinit L3 zero_state = Some (Return () seeded3) \<and>
      kalloc_times 3 seeded3 = ([0x3000, 0x2000, 0x1000], s2) \<and>
      kalloc s2 = Return 0 s3 \<and>
      kfree L3 0x2000 s3 = Return () s4 \<and> kalloc s4 = Return 0x2000 s5"
    using r(1,2,3) s1 rs by blast
  then show ?thesis using layout_ok_L3 boot_zero_state k by simp
qed

text \<open>
  C7. Let the pointer arithmetic of \<^verbatim>\<open>freerange\<close> stay below \<open>2 ^ 64\<close>. Then
  \<^verbatim>\<open>PGROUNDUP\<close> yields the first page boundary at or above \<open>pa_start\<close>, and \<^verbatim>\<open>freerange\<close>
  is the sequence of calls of \<^verbatim>\<open>kfree\<close> on the pages of the range, where these pages are
  listed once each in ascending order and are exactly the page-aligned addresses from
  that boundary on whose page ends at or below \<open>pa_end\<close>. In the example of the spec the
  pages \<open>0x1000\<close>, \<open>0x2000\<close> and \<open>0x3000\<close> are seeded and the first \<^verbatim>\<open>kalloc\<close> returns
  \<open>0x3000\<close>.
\<close>

theorem freerange_seeds:
  assumes "unat pa_start + 8192 \<le> 2 ^ 64" and "unat pa_end + 4096 < 2 ^ 64"
  shows "PGROUNDUP pa_start mod PGSIZE = 0 \<and> pa_start \<le> PGROUNDUP pa_start \<and>
         unat (PGROUNDUP pa_start) < unat pa_start + 4096 \<and>
         freerange L pa_start pa_end s = Some (kfree_list L (seed_pages pa_start pa_end) s) \<and>
         sorted_wrt (<) (seed_pages pa_start pa_end) \<and>
         (\<forall>p. (p \<in> set (seed_pages pa_start pa_end)) =
            (p mod PGSIZE = 0 \<and> PGROUNDUP pa_start \<le> p \<and> unat p + 4096 \<le> unat pa_end)) \<and>
         (\<exists>s1 s2. kinit L3 zero_state = Some (Return () s1) \<and> kalloc s1 = Return 0x3000 s2)"
proof -
  have a: "unat pa_start + 4095 < 2 ^ 64" using assms(1) by simp
  have "(p \<in> set (seed_pages pa_start pa_end)) =
      (p mod PGSIZE = 0 \<and> PGROUNDUP pa_start \<le> p \<and> unat p + 4096 \<le> unat pa_end)" for p
    by (simp add: seed_pages_set word_le_nat_alt unat_PGROUNDUP [OF a])
  moreover have "\<exists>s1 s2. kinit L3 zero_state = Some (Return () s1) \<and> kalloc s1 = Return 0x3000 s2"
    using kinit_L3(1) alloc3_facts(1) by blast
  ultimately show ?thesis
    using PGROUNDUP_next_boundary [OF a] freerange_kfree_list [OF assms, of L s]
      seed_pages_ascending [of pa_start pa_end]
    by simp
qed

theorem freerange_seeds_witness:
  "unat (0x1234 :: addr) + 8192 \<le> 2 ^ 64 \<and> unat (0x3fff :: addr) + 4096 < 2 ^ 64 \<and>
   PGROUNDUP 0x1234 = 0x2000 \<and> seed_pages 0x1234 0x3fff = [0x2000] \<and>
   freerange L3 0x1234 0x3fff zero_state = Some (kfree_list L3 [0x2000] zero_state) \<and>
   seed_pages 0x1000 0x4000 = [0x1000, 0x2000, 0x3000] \<and>
   freerange L3 0x1000 0x4000 zero_state = Some (Return () seeded3)"
proof -
  have b: "unat (0x1234 :: addr) + 8192 \<le> 2 ^ 64" "unat (0x3fff :: addr) + 4096 < 2 ^ 64"
    "unat (0x1000 :: addr) + 8192 \<le> 2 ^ 64" "unat (0x4000 :: addr) + 4096 < 2 ^ 64"
    by simp_all
  have p: "seed_pages 0x1234 0x3fff = [0x2000]"
    "seed_pages 0x1000 0x4000 = [0x1000, 0x2000, 0x3000]"
    by (simp_all add: seed_pages_def round_up_def upt_rec)
  have r: "PGROUNDUP 0x1234 = 0x2000" by (simp add: PGROUNDUP_def PGSIZE_def)
  have "freerange L3 0x1000 0x4000 zero_state = Some (Return () seeded3)"
    using kinit_L3(1) by (simp add: kinit_def L3_def)
  then show ?thesis
    using freerange_seeds [OF b(1,2), of L3 zero_state] b p r by simp
qed

text \<open>
  C8. When \<^verbatim>\<open>kfree\<close> finds that the count is no longer positive, it fills the whole page
  with the byte 1 and then stores the link to the old head of the free list in its first
  eight bytes; the page is the new head. Every page that \<^verbatim>\<open>kalloc\<close> returns is filled
  with the byte 5, which differs from 1. So whatever was written into a page before it
  was released, the page holds only the byte 5 when \<^verbatim>\<open>kalloc\<close> returns it again.
\<close>

theorem scrub_patterns:
  "(page_ok L pa \<and> \<not> 0 < sint (count s (pa div PGSIZE) - 1) \<longrightarrow>
      (\<exists>s'. kfree L pa s = Return () s' \<and>
         mem s' = store64 pa (freelist s) (memset pa 1 PGSIZE (mem s)) \<and>
         (\<forall>a. a - pa < PGSIZE \<longrightarrow> memset pa 1 PGSIZE (mem s) a = 1) \<and>
         (\<forall>a. a - pa < PGSIZE \<and> \<not> a - pa < 8 \<longrightarrow> mem s' a = 1) \<and>
         freelist s' = pa \<and>
         (pa \<noteq> 0 \<longrightarrow> (\<exists>s''. kalloc s' = Return pa s'' \<and>
            (\<forall>a. a - pa < PGSIZE \<longrightarrow> mem s'' a = 5))))) \<and>
   (kalloc s = Return r t \<and> r \<noteq> 0 \<longrightarrow>
      (\<forall>a. a - r < PGSIZE \<longrightarrow> mem t a = 5) \<and>
      (\<forall>a v. a - r < PGSIZE \<and> v \<noteq> 5 \<longrightarrow> mem t a \<noteq> v)) \<and>
   (1 :: byte) \<noteq> 5"
proof (intro conjI impI)
  assume a: "page_ok L pa \<and> \<not> 0 < sint (count s (pa div PGSIZE) - 1)"
  define s' where "s' = \<lparr>mem = store64 pa (freelist s) (memset pa 1 PGSIZE (mem s)),
            freelist = pa,
            count = (count s)(pa div PGSIZE := count s (pa div PGSIZE) - 1),
            events = events s @ [Acquire Refcnt_lock, Use_count, Release Refcnt_lock,
                                 Acquire Kmem_lock, Use_freelist, Release Kmem_lock]\<rparr>"
  have k: "kfree L pa s = Return () s'" using kfree_freed [of L pa s] a by (simp add: s'_def)
  have again: "\<exists>s''. kalloc s' = Return pa s'' \<and> (\<forall>a. a - pa < PGSIZE \<longrightarrow> mem s'' a = 5)"
    if "pa \<noteq> 0"
  proof -
    have "freelist s' \<noteq> 0" using that by (simp add: s'_def)
    from kalloc_page [OF this] show ?thesis by (simp add: s'_def memset_def)
  qed
  show "\<exists>s'. kfree L pa s = Return () s' \<and>
         mem s' = store64 pa (freelist s) (memset pa 1 PGSIZE (mem s)) \<and>
         (\<forall>a. a - pa < PGSIZE \<longrightarrow> memset pa 1 PGSIZE (mem s) a = 1) \<and>
         (\<forall>a. a - pa < PGSIZE \<and> \<not> a - pa < 8 \<longrightarrow> mem s' a = 1) \<and>
         freelist s' = pa \<and>
         (pa \<noteq> 0 \<longrightarrow> (\<exists>s''. kalloc s' = Return pa s'' \<and>
            (\<forall>a. a - pa < PGSIZE \<longrightarrow> mem s'' a = 5)))"
    using k again by (intro exI [of _ s']) (simp add: s'_def memset_def store64_def)
next
  assume a: "kalloc s = Return r t \<and> r \<noteq> 0"
  then have m: "mem t = memset r 5 PGSIZE (mem s)" using kalloc_Return(4) [of s r t] by simp
  show "\<forall>a. a - r < PGSIZE \<longrightarrow> mem t a = 5" by (simp add: m memset_def)
  show "\<forall>a v. a - r < PGSIZE \<and> v \<noteq> 5 \<longrightarrow> mem t a \<noteq> v" by (simp add: m memset_def)
next
  show "(1 :: byte) \<noteq> 5" by simp
qed

theorem scrub_patterns_witness:
  "page_ok L3 0x3000 \<and> \<not> 0 < sint (count marked3 (0x3000 div PGSIZE) - 1) \<and>
   mem marked3 0x3010 = 0xAB \<and>
   (\<exists>s' s''. kfree L3 0x3000 marked3 = Return () s' \<and> mem s' 0x3010 = 1 \<and>
      kalloc s' = Return 0x3000 s'' \<and> mem s'' 0x3010 = 5)"
proof -
  have ok: "page_ok L3 0x3000" by (rule page_ok_L3)
  have c: "\<not> 0 < sint (count marked3 (0x3000 div PGSIZE) - 1)"
    using alloc3_facts(3) by (simp add: marked3_def)
  have m: "mem marked3 0x3010 = 0xAB" by (simp add: marked3_def)
  have i: "(0x3010 :: addr) - 0x3000 < PGSIZE" "\<not> (0x3010 :: addr) - 0x3000 < 8"
    "(0x3000 :: addr) \<noteq> 0"
    by (simp_all add: PGSIZE_def)
  from scrub_patterns [of L3 "0x3000" marked3] ok c i
  have "\<exists>s' s''. kfree L3 0x3000 marked3 = Return () s' \<and> mem s' 0x3010 = 1 \<and>
      kalloc s' = Return 0x3000 s'' \<and> mem s'' 0x3010 = 5"
    by (metis (no_types, lifting))
  then show ?thesis using ok c m by simp
qed

text \<open>
  C10. \<^verbatim>\<open>kfree\<close> has no protection against releasing a page twice. For every address
  that passes its three checks and whose count is 0 or negative (the decrement of the
  least C int excluded, which is undefined in C), \<^verbatim>\<open>kfree\<close> returns normally, the count
  is one less and so below zero, and the address is pushed: it is the new head, and its
  link is the old head. If the address was already on the free list, following the
  links from the new head comes back to it, so that the traversal of the free list visits
  it twice.
\<close>

theorem double_free:
  assumes "page_ok L pa"
    and "sint (count s (pa div PGSIZE)) \<le> 0"
    and "- 2147483648 < sint (count s (pa div PGSIZE))"
  shows "\<exists>s'. kfree L pa s = Return () s' \<and>
           sint (count s' (pa div PGSIZE)) = sint (count s (pa div PGSIZE)) - 1 \<and>
           sint (count s' (pa div PGSIZE)) < 0 \<and>
           freelist s' = pa \<and> load64 (mem s') pa = freelist s \<and>
           (\<forall>as bs. free_inv L s (as @ pa # bs) \<and> pa \<notin> set as \<longrightarrow>
              walk (length as + 2) (mem s') (freelist s') = pa # as @ [pa] \<and>
              \<not> distinct (walk (length as + 2) (mem s') (freelist s')))"
proof -
  from kfree_again [OF assms]
  obtain s' where s': "kfree L pa s = Return () s'"
    "sint (count s' (pa div PGSIZE)) = sint (count s (pa div PGSIZE)) - 1"
    "freelist s' = pa" "load64 (mem s') pa = freelist s"
    "\<forall>as bs. free_inv L s (as @ pa # bs) \<and> pa \<notin> set as \<longrightarrow>
              walk (length as + 2) (mem s') (freelist s') = pa # as @ [pa]"
    by blast
  have "sint (count s' (pa div PGSIZE)) < 0" using s'(2) assms(2) by simp
  moreover have "\<not> distinct (pa # as @ [pa])" for as by simp
  ultimately show ?thesis using s' by metis
qed

theorem double_free_witness:
  "page_ok L3 0x3000 \<and> sint (count seeded3 (0x3000 div PGSIZE)) = - 1 \<and>
   free_inv L3 seeded3 [0x3000, 0x2000, 0x1000] \<and>
   (\<exists>s'. kfree L3 0x3000 seeded3 = Return () s' \<and>
      sint (count s' (0x3000 div PGSIZE)) = - 2 \<and> freelist s' = 0x3000 \<and>
      load64 (mem s') 0x3000 = 0x3000 \<and>
      walk 2 (mem s') (freelist s') = [0x3000, 0x3000])"
proof -
  have c: "sint (count seeded3 (0x3000 div PGSIZE)) = - 1" by (simp add: kinit_L3(3))
  have h: "freelist seeded3 = 0x3000" using kinit_L3(2) by (simp add: free_inv_def)
  have i: "free_inv L3 seeded3 ([] @ 0x3000 # [0x2000, 0x1000]) \<and> 0x3000 \<notin> set []"
    using kinit_L3(2) by simp
  from double_free [OF page_ok_L3(3), of seeded3] c
  obtain s' where s': "kfree L3 0x3000 seeded3 = Return () s'"
    "sint (count s' (0x3000 div PGSIZE)) = sint (count seeded3 (0x3000 div PGSIZE)) - 1"
    "freelist s' = 0x3000" "load64 (mem s') 0x3000 = freelist seeded3"
    "\<forall>as bs. free_inv L3 seeded3 (as @ 0x3000 # bs) \<and> 0x3000 \<notin> set as \<longrightarrow>
              walk (length as + 2) (mem s') (freelist s') = 0x3000 # as @ [0x3000] \<and>
              \<not> distinct (walk (length as + 2) (mem s') (freelist s'))"
    by auto
  from s'(5) i
  have "walk (length ([] :: addr list) + 2) (mem s') (freelist s') = 0x3000 # [] @ [0x3000]"
    by blast
  then have w: "walk 2 (mem s') (freelist s') = [0x3000, 0x3000]"
    by (simp only: list.size add_0 append.simps)
  have "sint (count s' (0x3000 div PGSIZE)) = - 2" "load64 (mem s') 0x3000 = 0x3000"
    using s'(2,4) c h by simp_all
  then have "\<exists>s'. kfree L3 0x3000 seeded3 = Return () s' \<and>
      sint (count s' (0x3000 div PGSIZE)) = - 2 \<and> freelist s' = 0x3000 \<and>
      load64 (mem s') 0x3000 = 0x3000 \<and>
      walk 2 (mem s') (freelist s') = [0x3000, 0x3000]"
    using s'(1,3) w by blast
  then show ?thesis using page_ok_L3(3) c kinit_L3(2) by blast
qed

text \<open>
  C9, as the code has it. The log that a call adds is one of a few fixed sequences, and
  in none of them are both locks held at the same moment. \<^verbatim>\<open>kfree\<close> releases the table
  lock, after the decrement, before it acquires the free-list lock; \<^verbatim>\<open>kalloc\<close> releases
  the free-list lock before it stores the count of the fresh page. \<^verbatim>\<open>increfcnt\<close> and
  \<^verbatim>\<open>decrefcnt\<close> access the table with the table lock held. \<^verbatim>\<open>getrefcnt\<close> reads the
  table, and \<^verbatim>\<open>kalloc\<close> stores the fresh count, without acquiring the table lock.
\<close>

theorem lock_discipline:
  "(\<exists>es. events (outcome_state (kfree L pa s)) = events s @ es \<and>
      \<not> both_held False False es \<and> \<not> unlocked_count False es \<and>
      (es = [] \<or> es = [Acquire Refcnt_lock, Use_count, Release Refcnt_lock] \<or>
       es = [Acquire Refcnt_lock, Use_count, Release Refcnt_lock,
             Acquire Kmem_lock, Use_freelist, Release Kmem_lock])) \<and>
   (\<exists>es. events (outcome_state (kalloc s)) = events s @ es \<and>
      \<not> both_held False False es \<and>
      (es = [Acquire Kmem_lock, Use_freelist, Release Kmem_lock] \<or>
       es = [Acquire Kmem_lock, Use_freelist, Release Kmem_lock, Use_count]) \<and>
      (unlocked_count False es = (freelist s \<noteq> 0))) \<and>
   (\<exists>es. events (outcome_state (increfcnt L pa s)) = events s @ es \<and>
      \<not> both_held False False es \<and> \<not> unlocked_count False es \<and>
      (es = [] \<or> es = [Acquire Refcnt_lock, Use_count, Release Refcnt_lock])) \<and>
   (\<exists>es. events (outcome_state (decrefcnt L pa s)) = events s @ es \<and>
      \<not> both_held False False es \<and> \<not> unlocked_count False es \<and>
      (es = [] \<or> es = [Acquire Refcnt_lock, Use_count, Release Refcnt_lock])) \<and>
   (\<exists>es. events (outcome_state (getrefcnt pa s)) = events s @ es \<and>
      \<not> both_held False False es \<and> unlocked_count False es \<and> es = [Use_count])"
proof (intro conjI)
  show "\<exists>es. events (outcome_state (kfree L pa s)) = events s @ es \<and>
      \<not> both_held False False es \<and> \<not> unlocked_count False es \<and>
      (es = [] \<or> es = [Acquire Refcnt_lock, Use_count, Release Refcnt_lock] \<or>
       es = [Acquire Refcnt_lock, Use_count, Release Refcnt_lock,
             Acquire Kmem_lock, Use_freelist, Release Kmem_lock])"
    unfolding kfree_events by simp
  show "\<exists>es. events (outcome_state (kalloc s)) = events s @ es \<and>
      \<not> both_held False False es \<and>
      (es = [Acquire Kmem_lock, Use_freelist, Release Kmem_lock] \<or>
       es = [Acquire Kmem_lock, Use_freelist, Release Kmem_lock, Use_count]) \<and>
      (unlocked_count False es = (freelist s \<noteq> 0))"
    unfolding kalloc_events by simp
  show "\<exists>es. events (outcome_state (increfcnt L pa s)) = events s @ es \<and>
      \<not> both_held False False es \<and> \<not> unlocked_count False es \<and>
      (es = [] \<or> es = [Acquire Refcnt_lock, Use_count, Release Refcnt_lock])"
    unfolding increfcnt_events by simp
  show "\<exists>es. events (outcome_state (decrefcnt L pa s)) = events s @ es \<and>
      \<not> both_held False False es \<and> \<not> unlocked_count False es \<and>
      (es = [] \<or> es = [Acquire Refcnt_lock, Use_count, Release Refcnt_lock])"
    unfolding decrefcnt_events by simp
  show "\<exists>es. events (outcome_state (getrefcnt pa s)) = events s @ es \<and>
      \<not> both_held False False es \<and> unlocked_count False es \<and> es = [Use_count]"
    unfolding getrefcnt_events by simp
qed

theorem lock_discipline_witness:
  "events (outcome_state (kfree L3 0x3000 alloc3)) = events alloc3 @
     [Acquire Refcnt_lock, Use_count, Release Refcnt_lock,
      Acquire Kmem_lock, Use_freelist, Release Kmem_lock] \<and>
   events (outcome_state (kfree L3 0x3000 shared3)) = events shared3 @
     [Acquire Refcnt_lock, Use_count, Release Refcnt_lock] \<and>
   events (outcome_state (kalloc seeded3)) = events seeded3 @
     [Acquire Kmem_lock, Use_freelist, Release Kmem_lock, Use_count] \<and>
   events (outcome_state (getrefcnt 0x3000 seeded3)) = events seeded3 @ [Use_count]"
proof -
  have a: "\<not> 0 < sint (count alloc3 (0x3000 div PGSIZE) - 1)"
    by (simp add: alloc3_facts(3))
  have b: "0 < sint (count shared3 (0x3000 div PGSIZE) - 1)"
    by (simp add: shared3_facts(3))
  have c: "freelist seeded3 \<noteq> 0" using kinit_L3(2) by (simp add: free_inv_def)
  have 1: "events (outcome_state (kfree L3 0x3000 alloc3)) = events alloc3 @
     [Acquire Refcnt_lock, Use_count, Release Refcnt_lock,
      Acquire Kmem_lock, Use_freelist, Release Kmem_lock]"
    using a page_ok_L3(3) by (simp add: kfree_events)
  have 2: "events (outcome_state (kfree L3 0x3000 shared3)) = events shared3 @
     [Acquire Refcnt_lock, Use_count, Release Refcnt_lock]"
    using b page_ok_L3(3) by (simp add: kfree_events)
  have 3: "events (outcome_state (kalloc seeded3)) = events seeded3 @
     [Acquire Kmem_lock, Use_freelist, Release Kmem_lock, Use_count]"
    using lock_discipline [of L3 "0x3000" seeded3] c by auto
  have 4: "events (outcome_state (getrefcnt 0x3000 seeded3)) = events seeded3 @ [Use_count]"
    using lock_discipline [of L3 "0x3000" seeded3] by auto
  show ?thesis using 1 2 3 4 by simp
qed

text \<open>
  The claim C9 as it is written fails: \<^verbatim>\<open>getrefcnt\<close> reads \<^verbatim>\<open>refcnt.count\<close> and never
  acquires the table lock.
\<close>

theorem getrefcnt_takes_no_lock:
  "events (outcome_state (getrefcnt 0x3000 seeded3)) = events seeded3 @ [Use_count] \<and>
   unlocked_count False [Use_count] \<and>
   Acquire Refcnt_lock \<notin> set [Use_count]"
  by (simp add: getrefcnt_events)

text \<open>
  C2, as the code has it. In every state reached from \<^verbatim>\<open>kinit\<close> (run on the
  zero-initialised globals) by calls of \<^verbatim>\<open>kalloc\<close>, \<^verbatim>\<open>kfree\<close>, \<^verbatim>\<open>increfcnt\<close>,
  \<^verbatim>\<open>decrefcnt\<close> and \<^verbatim>\<open>getrefcnt\<close>, where the callers release and share only pages that
  are not on the free list and no count of a page on the free list is decremented at the
  least \<^verbatim>\<open>int\<close>, the free list is a finite chain of pairwise distinct pages that ends in
  the null pointer, and the reference count of each page on it is at most 0. Nothing
  more is said about the value of the count: in the example it is \<open>-1\<close> right after
  \<^verbatim>\<open>kinit\<close> and \<open>-2\<close> after a \<^verbatim>\<open>decrefcnt\<close> of the head.
\<close>

theorem free_list_invariant:
  assumes "reachable L s"
  shows "\<exists>xs. freechain (mem s) (freelist s) xs \<and> distinct xs \<and>
           (\<forall>p\<in>set xs. page_ok L p \<and> sint (count s (p div PGSIZE)) \<le> 0) \<and>
           (\<forall>n. walk n (mem s) (freelist s) = take n xs)"
proof -
  from reachable_free_inv [OF assms] obtain xs where xs: "free_inv L s xs" by blast
  then have c: "freechain (mem s) (freelist s) xs" by (simp add: free_inv_def)
  have "distinct xs" using c by (rule freechain_distinct)
  moreover have "\<forall>p\<in>set xs. page_ok L p \<and> sint (count s (p div PGSIZE)) \<le> 0"
    using xs by (simp add: free_inv_def list_all_iff)
  moreover have "\<forall>n. walk n (mem s) (freelist s) = take n xs"
    using walk_freechain [OF c] by simp
  ultimately show ?thesis using c by blast
qed

theorem free_list_invariant_witness:
  "reachable L3 seeded3 \<and> reachable L3 alloc3 \<and> reachable L3 shared3 \<and>
   freechain (mem shared3) (freelist shared3) [0x2000, 0x1000] \<and>
   sint (count shared3 (0x2000 div PGSIZE)) \<le> 0 \<and>
   sint (count shared3 (0x1000 div PGSIZE)) \<le> 0 \<and>
   walk 5 (mem shared3) (freelist shared3) = [0x2000, 0x1000] \<and>
   reachable L3 dec3 \<and> sint (count dec3 (0x3000 div PGSIZE)) = - 2 \<and>
   walk 5 (mem dec3) (freelist dec3) = [0x3000, 0x2000, 0x1000]"
proof -
  have 0: "reachable L3 seeded3"
    using boot_zero_state kinit_L3(1) by (rule reachable.after_kinit)
  have "on_freelist seeded3 0x3000 \<longrightarrow>
      - 2147483648 < sint (count seeded3 (0x3000 div PGSIZE))"
    by (simp add: kinit_L3(3))
  with 0 have 4: "reachable L3 dec3"
    using dec3_facts(1) by (rule reachable.after_decrefcnt)
  from free_list_invariant [OF 4]
  obtain ys where ys: "freechain (mem dec3) (freelist dec3) ys"
    "\<forall>n. walk n (mem dec3) (freelist dec3) = take n ys"
    by blast
  have "freechain (mem dec3) (freelist dec3) [0x3000, 0x2000, 0x1000]"
    using dec3_facts(2) by (simp add: free_inv_def)
  with ys(1) have d: "ys = [0x3000, 0x2000, 0x1000]" by (rule freechain_unique)
  have "walk 5 (mem dec3) (freelist dec3) = take 5 ys" using ys(2) by blast
  then have w4: "walk 5 (mem dec3) (freelist dec3) = [0x3000, 0x2000, 0x1000]"
    by (simp only: d) simp
  have c4: "sint (count dec3 (0x3000 div PGSIZE)) = - 2" by (simp add: dec3_facts(3))
  have 1: "reachable L3 seeded3"
    using boot_zero_state kinit_L3(1) by (rule reachable.after_kinit)
  have 2: "reachable L3 alloc3"
    using 1 alloc3_facts(1) by (rule reachable.after_kalloc)
  have c: "freechain (mem alloc3) (freelist alloc3) [0x2000, 0x1000]"
    using alloc3_facts(2) by (simp add: free_inv_def)
  have "\<not> on_freelist alloc3 0x3000"
  proof
    assume "on_freelist alloc3 0x3000"
    then obtain xs where xs: "freechain (mem alloc3) (freelist alloc3) xs" "0x3000 \<in> set xs"
      by (auto simp: on_freelist_def)
    have "xs = [0x2000, 0x1000]" using xs(1) c by (rule freechain_unique)
    with xs(2) show False by simp
  qed
  with 2 have 3: "reachable L3 shared3"
    using shared3_facts(1) by (rule reachable.after_increfcnt)
  from free_list_invariant [OF 3]
  obtain xs where xs: "freechain (mem shared3) (freelist shared3) xs"
    "\<forall>p\<in>set xs. page_ok L3 p \<and> sint (count shared3 (p div PGSIZE)) \<le> 0"
    "\<forall>n. walk n (mem shared3) (freelist shared3) = take n xs"
    by blast
  have "freechain (mem shared3) (freelist shared3) [0x2000, 0x1000]"
    using shared3_facts(2) by (simp add: free_inv_def)
  with xs(1) have e: "xs = [0x2000, 0x1000]" by (rule freechain_unique)
  have "walk 5 (mem shared3) (freelist shared3) = take 5 xs" using xs(3) by blast
  then have w: "walk 5 (mem shared3) (freelist shared3) = [0x2000, 0x1000]"
    by (simp only: e) simp
  show ?thesis using 1 2 3 xs(1,2) w 4 c4 w4 by (simp add: e)
qed

text \<open>
  The claim C2 as it is written fails in two ways. Right after \<^verbatim>\<open>kinit\<close> the page at the
  head of the free list has the reference count \<open>-1\<close>, not 0: the decrement of \<^verbatim>\<open>kfree\<close>
  starts from the zero-initialised table. And \<^verbatim>\<open>kfree\<close> called on that head once more
  returns normally and leaves a list whose traversal visits the page twice.
\<close>

theorem free_list_count_not_zero:
  "kinit L3 zero_state = Some (Return () seeded3) \<and>
   walk 1 (mem seeded3) (freelist seeded3) = [0x3000] \<and>
   sint (count seeded3 (0x3000 div PGSIZE)) = - 1 \<and>
   kfree L3 0x3000 seeded3 = Return () dbl3 \<and>
   walk 2 (mem dbl3) (freelist dbl3) = [0x3000, 0x3000]"
proof -
  have "freechain (mem seeded3) (freelist seeded3) [0x3000, 0x2000, 0x1000]"
    using kinit_L3(2) by (simp add: free_inv_def)
  from walk_freechain [OF this, of 1]
  have "walk 1 (mem seeded3) (freelist seeded3) = [0x3000]" by simp
  moreover have "sint (count seeded3 (0x3000 div PGSIZE)) = - 1" by (simp add: kinit_L3(3))
  ultimately show ?thesis using kinit_L3(1) dbl3_facts(1,3) by simp
qed

end
